theory Spec2Isabelle
  imports Main "HOL-Library.Multiset"
begin

section \<open>The automation backend\<close>

text \<open>
  The page objects of \<^verbatim>\<open>src/pages\<close> are clients of an automation backend (the
  Appium driver) and of the polling helper \<^verbatim>\<open>WebDriverWait\<close>. Neither is code of
  this repository. They are modelled here as the environment the page objects run in:
  \<^item> a locator is the pair (strategy, value) the source builds;
  \<^item> an element carries the attributes the page objects read from it;
  \<^item> a snapshot is the UI tree at one instant: for each locator the ordered match set,
    or a backend fault, under which every request raises \<^verbatim>\<open>WebDriverException\<close>;
  \<^item> the driver holds a clock, counted in poll intervals of half a second, the
    snapshot shown at every instant, and the list of state-changing commands the
    backend has accepted.
  A request to the backend takes no time; sleeping between two polls and a swipe of
  500 ms each take one tick.
\<close>

type_synonym locator = "string \<times> string"

record element =
  ident :: nat
  label :: "string option"
  pos_y :: int
  displayed :: bool
  enabled :: bool

record snapshot =
  tree :: "locator \<Rightarrow> element list"
  fault :: "string option"

datatype command = Click element | Swipe

datatype error =
    TimeoutException
  | NoSuchElementException
  | IndexError
  | WebDriverException string

record driver =
  clock :: int
  screen :: "int \<Rightarrow> snapshot"
  commands :: "command list"

definition showing :: "driver \<Rightarrow> snapshot" where
  "showing d = screen d (clock d)"

text \<open>\<^verbatim>\<open>driver.find_element(*locator)\<close>: the first match, or \<^verbatim>\<open>NoSuchElementException\<close>.\<close>

definition find_element :: "locator \<Rightarrow> snapshot \<Rightarrow> error + element" where
  "find_element loc s =
     (case fault s of
        Some msg \<Rightarrow> Inl (WebDriverException msg)
      | None \<Rightarrow> (case tree s loc of [] \<Rightarrow> Inl NoSuchElementException | el # _ \<Rightarrow> Inr el))"

text \<open>\<^verbatim>\<open>driver.find_elements(*locator)\<close>: the whole match set, possibly empty.\<close>

definition find_elements :: "locator \<Rightarrow> snapshot \<Rightarrow> error + element list" where
  "find_elements loc s =
     (case fault s of
        Some msg \<Rightarrow> Inl (WebDriverException msg)
      | None \<Rightarrow> Inr (tree s loc))"

text \<open>\<^verbatim>\<open>element.click()\<close>.\<close>

definition click :: "element \<Rightarrow> driver \<Rightarrow> (error + unit) \<times> driver" where
  "click el d =
     (case fault (showing d) of
        Some msg \<Rightarrow> (Inl (WebDriverException msg), d)
      | None \<Rightarrow> (Inr (), d\<lparr>commands := commands d @ [Click el]\<rparr>))"

subsection \<open>Expected conditions\<close>

text \<open>
  A condition is evaluated on the current snapshot. It returns a value, where
  \<open>None\<close> stands for Python's falsy results, or raises.
\<close>

type_synonym 'a condition = "snapshot \<Rightarrow> error + 'a option"

definition visibility_of_element_located :: "locator \<Rightarrow> element condition" where
  "visibility_of_element_located loc s =
     (case find_element loc s of
        Inl e \<Rightarrow> Inl e
      | Inr el \<Rightarrow> Inr (if displayed el then Some el else None))"

definition element_to_be_clickable :: "locator \<Rightarrow> element condition" where
  "element_to_be_clickable loc s =
     (case find_element loc s of
        Inl e \<Rightarrow> Inl e
      | Inr el \<Rightarrow> Inr (if displayed el \<and> enabled el then Some el else None))"

definition presence_of_element_located :: "locator \<Rightarrow> element condition" where
  "presence_of_element_located loc s =
     (case find_element loc s of
        Inl e \<Rightarrow> Inl e
      | Inr el \<Rightarrow> Inr (Some el))"

text \<open>
  \<^verbatim>\<open>invisibility_of_element_located\<close> returns \<^verbatim>\<open>True\<close> where nothing matches, and the
  element itself where the first match is not displayed; both are truthy.
\<close>

datatype gone = PyTrue | Hidden element

definition invisibility_of_element_located :: "locator \<Rightarrow> gone condition" where
  "invisibility_of_element_located loc s =
     (case find_element loc s of
        Inl e \<Rightarrow> if e = NoSuchElementException then Inr (Some PyTrue) else Inl e
      | Inr el \<Rightarrow> Inr (if displayed el then None else Some (Hidden el)))"

subsection \<open>WebDriverWait\<close>

text \<open>
  One evaluation of the condition inside \<^verbatim>\<open>WebDriverWait.until\<close>: a truthy value
  ends the wait, \<^verbatim>\<open>NoSuchElementException\<close> (the ignored exception) and a falsy value
  ask for another poll, any other exception leaves the loop.
\<close>

datatype 'a attempt = Ready 'a | NotYet | Abort error

definition attempt :: "'a condition \<Rightarrow> snapshot \<Rightarrow> 'a attempt" where
  "attempt method s =
     (case method s of
        Inr (Some v) \<Rightarrow> Ready v
      | Inr None \<Rightarrow> NotYet
      | Inl e \<Rightarrow> if e = NoSuchElementException then NotYet else Abort e)"

text \<open>
  \<^verbatim>\<open>
  while True:
      try:
          value = method(self._driver)
          if value: return value
      except self._ignored_exceptions: ...
      if time.monotonic() > end_time: break
      time.sleep(self._poll)
  raise TimeoutException(message, screen, stacktrace)
  \<close>
\<close>

function until_loop :: "driver \<Rightarrow> int \<Rightarrow> 'a condition \<Rightarrow> (error + 'a) \<times> driver" where
  "until_loop d end_time method =
     (case attempt method (showing d) of
        Ready v \<Rightarrow> (Inr v, d)
      | Abort e \<Rightarrow> (Inl e, d)
      | NotYet \<Rightarrow>
          if clock d > end_time then (Inl TimeoutException, d)
          else until_loop (d\<lparr>clock := clock d + 1\<rparr>) end_time method)"
  by pat_completeness auto
termination
  by (relation "measure (\<lambda>(d, end_time, method). nat (end_time + 1 - clock d))") auto

declare until_loop.simps [simp del]

text \<open>\<^verbatim>\<open>WebDriverWait(driver, timeout).until(method)\<close>, the timeout in seconds.\<close>

definition until :: "driver \<Rightarrow> int \<Rightarrow> 'a condition \<Rightarrow> (error + 'a) \<times> driver" where
  "until d timeout method = until_loop d (clock d + 2 * timeout) method"

section \<open>BasePage\<close>

definition DEFAULT_TIMEOUT :: int where
  "DEFAULT_TIMEOUT = 10"

text \<open>\<^verbatim>\<open>timeout or self.DEFAULT_TIMEOUT\<close>: \<open>None\<close> and \<open>0\<close> are both falsy.\<close>

definition timeout_or_default :: "int option \<Rightarrow> int" where
  "timeout_or_default timeout =
     (case timeout of
        None \<Rightarrow> DEFAULT_TIMEOUT
      | Some t \<Rightarrow> if t = 0 then DEFAULT_TIMEOUT else t)"

definition wait_for_element :: "locator \<Rightarrow> int option \<Rightarrow> driver \<Rightarrow> (error + element) \<times> driver" where
  "wait_for_element loc timeout d =
     until d (timeout_or_default timeout) (visibility_of_element_located loc)"

definition wait_for_element_clickable ::
  "locator \<Rightarrow> int option \<Rightarrow> driver \<Rightarrow> (error + element) \<times> driver" where
  "wait_for_element_clickable loc timeout d =
     until d (timeout_or_default timeout) (element_to_be_clickable loc)"

definition wait_for_element_invisible ::
  "locator \<Rightarrow> int option \<Rightarrow> driver \<Rightarrow> (error + gone) \<times> driver" where
  "wait_for_element_invisible loc timeout d =
     until d (timeout_or_default timeout) (invisibility_of_element_located loc)"

text \<open>The source's default for \<open>timeout\<close> is \<open>Some 3\<close>.\<close>

definition is_element_visible :: "locator \<Rightarrow> int option \<Rightarrow> driver \<Rightarrow> (error + bool) \<times> driver" where
  "is_element_visible loc timeout d =
     (case wait_for_element loc timeout d of
        (Inr _, d') \<Rightarrow> (Inr True, d')
      | (Inl e, d') \<Rightarrow> if e = TimeoutException then (Inr False, d') else (Inl e, d'))"

definition tap :: "locator \<Rightarrow> int option \<Rightarrow> driver \<Rightarrow> (error + unit) \<times> driver" where
  "tap loc timeout d =
     (case wait_for_element_clickable loc timeout d of
        (Inl e, d') \<Rightarrow> (Inl e, d')
      | (Inr el, d') \<Rightarrow> click el d')"

definition get_elements ::
  "locator \<Rightarrow> int option \<Rightarrow> driver \<Rightarrow> (error + element list) \<times> driver" where
  "get_elements loc timeout d =
     (case until d (timeout_or_default timeout) (presence_of_element_located loc) of
        (Inl e, d') \<Rightarrow> (Inl e, d')
      | (Inr _, d') \<Rightarrow> (find_elements loc (showing d'), d'))"

text \<open>\<^verbatim>\<open>len(self.driver.find_elements(*locator))\<close>.\<close>

definition count_now :: "locator \<Rightarrow> snapshot \<Rightarrow> error + int" where
  "count_now loc s =
     (case find_elements loc s of
        Inl e \<Rightarrow> Inl e
      | Inr els \<Rightarrow> Inr (int (length els)))"

definition get_element_count ::
  "locator \<Rightarrow> int option \<Rightarrow> bool \<Rightarrow> driver \<Rightarrow> (error + int) \<times> driver" where
  "get_element_count loc timeout wait d =
     (if \<not> wait then (count_now loc (showing d), d)
      else
        (case get_elements loc timeout d of
           (Inr els, d') \<Rightarrow> (Inr (int (length els)), d')
         | (Inl e, d') \<Rightarrow> if e = TimeoutException then (Inr 0, d') else (Inl e, d')))"


subsection \<open>Scrolling\<close>

text \<open>
  \<^verbatim>\<open>scroll_down\<close> asks for the window size and sends one swipe of 500 ms. The swipe's
  coordinates are floating-point fractions of the window size and are not modelled.
\<close>

definition scroll_down :: "driver \<Rightarrow> (error + unit) \<times> driver" where
  "scroll_down d =
     (case fault (showing d) of
        Some msg \<Rightarrow> (Inl (WebDriverException msg), d)
      | None \<Rightarrow> (Inr (), d\<lparr>clock := clock d + 1, commands := commands d @ [Swipe]\<rparr>))"

text \<open>
  The loop of \<^verbatim>\<open>scroll_to_element\<close>, by the number of iterations left:
  \<^verbatim>\<open>
  for _ in range(max_scrolls):
      if self.is_element_visible(locator, timeout=2):
          return self.wait_for_element(locator)
      self.scroll_down()
  raise TimeoutException(...)
  \<close>
  The first component of the result counts the calls of \<^verbatim>\<open>is_element_visible\<close> made;
  it is bookkeeping for the resource bound and influences nothing else.
\<close>

fun scroll_attempts :: "nat \<Rightarrow> locator \<Rightarrow> driver \<Rightarrow> nat \<times> (error + element) \<times> driver" where
  "scroll_attempts 0 loc d = (0, Inl TimeoutException, d)"
| "scroll_attempts (Suc n) loc d =
     (case is_element_visible loc (Some 2) d of
        (Inl e, d1) \<Rightarrow> (1, Inl e, d1)
      | (Inr found, d1) \<Rightarrow>
          if found then (1, wait_for_element loc None d1)
          else
            (case scroll_down d1 of
               (Inl e, d2) \<Rightarrow> (1, Inl e, d2)
             | (Inr _, d2) \<Rightarrow>
                 (case scroll_attempts n loc d2 of (checks, r) \<Rightarrow> (Suc checks, r))))"

definition scroll_to_element :: "locator \<Rightarrow> int \<Rightarrow> driver \<Rightarrow> (error + element) \<times> driver" where
  "scroll_to_element loc max_scrolls d = snd (scroll_attempts (nat max_scrolls) loc d)"

section \<open>BackyardsPage\<close>

text \<open>The value of \<^verbatim>\<open>AppiumBy.IOS_PREDICATE\<close>.\<close>

definition IOS_PREDICATE :: string where
  "IOS_PREDICATE = ''-ios predicate string''"

definition BACKYARD_CELLS :: locator where
  \<open>BACKYARD_CELLS =
     (IOS_PREDICATE,
      ''type == "XCUIElementTypeButton" AND name BEGINSWITH "BackyardGridItem_ZStack_" AND label != "Favorite"'')\<close>

text \<open>The local \<^verbatim>\<open>locator\<close> of \<^verbatim>\<open>get_backyard_names\<close>.\<close>

definition BACKYARD_NAMES :: locator where
  \<open>BACKYARD_NAMES =
     (IOS_PREDICATE,
      ''type == "XCUIElementTypeStaticText" AND name BEGINSWITH "BackyardGridItem_ZStack_"'')\<close>

definition get_backyard_count :: "bool \<Rightarrow> driver \<Rightarrow> (error + int) \<times> driver" where
  "get_backyard_count wait d = get_element_count BACKYARD_CELLS None wait d"

definition get_backyard_cells :: "driver \<Rightarrow> (error + element list) \<times> driver" where
  "get_backyard_cells d = get_elements BACKYARD_CELLS None d"

text \<open>
  The pairs (y, name) in the order of the match set, sorted on the first component
  alone; \<^verbatim>\<open>list.sort\<close> is stable, as \<open>sort_key\<close> is.
\<close>

definition backyards_with_position :: "element list \<Rightarrow> (int \<times> string option) list" where
  "backyards_with_position elements = map (\<lambda>el. (pos_y el, label el)) elements"

definition get_backyard_names :: "driver \<Rightarrow> (error + string option list) \<times> driver" where
  "get_backyard_names d =
     (case get_elements BACKYARD_NAMES None d of
        (Inl e, d') \<Rightarrow> (Inl e, d')
      | (Inr elements, d') \<Rightarrow>
          (Inr (map snd (sort_key fst (backyards_with_position elements))), d'))"

text \<open>\<^verbatim>\<open>cells[index]\<close>: a negative index counts from the end, out of range raises.\<close>

definition py_index :: "'a list \<Rightarrow> int \<Rightarrow> error + 'a" where
  "py_index xs i =
     (let n = int (length xs); j = (if i < 0 then n + i else i)
      in if 0 \<le> j \<and> j < n then Inr (xs ! nat j) else Inl IndexError)"

definition tap_backyard_by_index :: "int \<Rightarrow> driver \<Rightarrow> (error + unit) \<times> driver" where
  "tap_backyard_by_index index d =
     (case get_backyard_cells d of
        (Inl e, d') \<Rightarrow> (Inl e, d')
      | (Inr cells, d') \<Rightarrow>
          if index < int (length cells) then
            (case py_index cells index of
               Inl e \<Rightarrow> (Inl e, d')
             | Inr cell \<Rightarrow> click cell d')
          else (Inl IndexError, d'))"

text \<open>
  The closure \<^verbatim>\<open>count_matches\<close> of \<^verbatim>\<open>wait_for_backyard_count\<close>: it calls
  \<^verbatim>\<open>get_backyard_count(wait=False)\<close>, which is \<open>count_now\<close> on the current snapshot.
\<close>

definition count_matches :: "int \<Rightarrow> bool condition" where
  "count_matches expected_count s =
     (case count_now BACKYARD_CELLS s of
        Inl e \<Rightarrow> Inl e
      | Inr current \<Rightarrow> Inr (if current = expected_count then Some True else None))"

text \<open>The source's default for \<open>timeout\<close> is 5; it is passed on as it is.\<close>

definition wait_for_backyard_count :: "int \<Rightarrow> int \<Rightarrow> driver \<Rightarrow> (error + bool) \<times> driver" where
  "wait_for_backyard_count expected_count timeout d =
     until d timeout (count_matches expected_count)"

section \<open>BirdsPage\<close>

definition BIRD_NAMES :: locator where
  \<open>BIRD_NAMES =
     (IOS_PREDICATE,
      ''name BEGINSWITH "BirdsNavigationStack_GridItem_" AND type == "XCUIElementTypeStaticText" AND (label == "Hummingbird" OR label == "Swallow" OR label == "Dove" OR label == "Chickadee" OR label == "Petrel" OR label == "Cardinal")'')\<close>

definition BIRD_TEXT_ELEMENTS :: locator where
  \<open>BIRD_TEXT_ELEMENTS =
     (IOS_PREDICATE,
      ''name BEGINSWITH "BirdsNavigationStack_GridItem_" AND type == "XCUIElementTypeStaticText"'')\<close>

definition get_bird_names :: "driver \<Rightarrow> (error + element list) \<times> driver" where
  "get_bird_names d = get_elements BIRD_NAMES None d"

text \<open>The bare \<^verbatim>\<open>except:\<close> of \<^verbatim>\<open>get_bird_count\<close> catches every exception.\<close>

definition get_bird_count :: "driver \<Rightarrow> (error + int) \<times> driver" where
  "get_bird_count d =
     (case get_bird_names d of
        (Inr names, d') \<Rightarrow> (Inr (int (length names)), d')
      | (Inl e, d') \<Rightarrow> (Inr 0, d'))"

definition get_bird_text_count :: "driver \<Rightarrow> (error + int) \<times> driver" where
  "get_bird_text_count d = get_element_count BIRD_TEXT_ELEMENTS None True d"

section \<open>Observations of the environment\<close>

text \<open>
  The last instant at which a wait of \<open>timeout\<close> seconds that starts now still polls:
  the loop sleeps once more when the clock equals the deadline.
\<close>

definition last_poll :: "driver \<Rightarrow> int \<Rightarrow> int" where
  "last_poll d timeout = max (clock d) (clock d + 2 * timeout + 1)"

text \<open>What the backend shows for a locator at instant \<open>k\<close>.\<close>

definition visible_at :: "locator \<Rightarrow> driver \<Rightarrow> int \<Rightarrow> bool" where
  "visible_at loc d k =
     (fault (screen d k) = None \<and>
      (case tree (screen d k) loc of [] \<Rightarrow> False | el # _ \<Rightarrow> displayed el))"

definition hidden_at :: "locator \<Rightarrow> driver \<Rightarrow> int \<Rightarrow> bool" where
  "hidden_at loc d k =
     (fault (screen d k) = None \<and>
      (case tree (screen d k) loc of [] \<Rightarrow> True | el # _ \<Rightarrow> \<not> displayed el))"

definition clickable_at :: "locator \<Rightarrow> driver \<Rightarrow> int \<Rightarrow> bool" where
  "clickable_at loc d k =
     (fault (screen d k) = None \<and>
      (case tree (screen d k) loc of [] \<Rightarrow> False | el # _ \<Rightarrow> displayed el \<and> enabled el))"

definition unclickable_at :: "locator \<Rightarrow> driver \<Rightarrow> int \<Rightarrow> bool" where
  "unclickable_at loc d k =
     (fault (screen d k) = None \<and>
      (case tree (screen d k) loc of [] \<Rightarrow> True | el # _ \<Rightarrow> \<not> (displayed el \<and> enabled el)))"

text \<open>What a wait for invisibility returns on a snapshot without a visible match.\<close>

definition gone_value :: "locator \<Rightarrow> driver \<Rightarrow> int \<Rightarrow> gone" where
  "gone_value loc d k = (case tree (screen d k) loc of [] \<Rightarrow> PyTrue | el # _ \<Rightarrow> Hidden el)"

definition present_at :: "locator \<Rightarrow> driver \<Rightarrow> int \<Rightarrow> bool" where
  "present_at loc d k = (fault (screen d k) = None \<and> tree (screen d k) loc \<noteq> [])"

definition absent_at :: "locator \<Rightarrow> driver \<Rightarrow> int \<Rightarrow> bool" where
  "absent_at loc d k = (fault (screen d k) = None \<and> tree (screen d k) loc = [])"

subsection \<open>Example environments\<close>

definition blank :: snapshot where
  "blank = \<lparr>tree = (\<lambda>_. []), fault = None\<rparr>"

definition offline :: snapshot where
  "offline = \<lparr>tree = (\<lambda>_. []), fault = Some ''session lost''\<rparr>"

definition page_with :: "locator \<Rightarrow> element list \<Rightarrow> snapshot" where
  "page_with loc els = \<lparr>tree = (\<lambda>l. if l = loc then els else []), fault = None\<rparr>"

definition SEARCH_BAR :: locator where
  "SEARCH_BAR = (''accessibility id'', ''Search'')"

definition search_field :: element where
  "search_field = \<lparr>ident = 7, label = Some ''Search'', pos_y = 60, displayed = True, enabled = True\<rparr>"

text \<open>Nothing ever matches.\<close>

definition empty_app :: driver where
  "empty_app = \<lparr>clock = 0, screen = (\<lambda>_. blank), commands = []\<rparr>"

text \<open>The search bar appears at the third poll.\<close>

definition late_app :: driver where
  "late_app =
     \<lparr>clock = 0,
      screen = (\<lambda>k. if k < 2 then blank else page_with SEARCH_BAR [search_field]),
      commands = []\<rparr>"

text \<open>The search bar is there from the start.\<close>

definition steady_app :: driver where
  "steady_app = \<lparr>clock = 0, screen = (\<lambda>_. page_with SEARCH_BAR [search_field]), commands = []\<rparr>"

text \<open>The search bar is there at first and is gone at the third poll.\<close>

definition vanishing_app :: driver where
  "vanishing_app =
     \<lparr>clock = 0,
      screen = (\<lambda>k. if k < 2 then page_with SEARCH_BAR [search_field] else blank),
      commands = []\<rparr>"

text \<open>The backend has lost its session.\<close>

definition broken_app :: driver where
  "broken_app = \<lparr>clock = 0, screen = (\<lambda>_. offline), commands = []\<rparr>"

text \<open>Backyard cells, and a list that has loaded at the third poll.\<close>

definition cell :: "nat \<Rightarrow> int \<Rightarrow> element" where
  "cell i y = \<lparr>ident = i, label = Some ''Backyard'', pos_y = y, displayed = True, enabled = True\<rparr>"

definition growing_app :: driver where
  "growing_app =
     \<lparr>clock = 0,
      screen = (\<lambda>k. if k < 2 then blank else page_with BACKYARD_CELLS [cell 1 100, cell 2 300, cell 3 500]),
      commands = []\<rparr>"

text \<open>Three backyard names; the backend lists them in one order or in another.\<close>

definition name_text :: "nat \<Rightarrow> string \<Rightarrow> int \<Rightarrow> element" where
  "name_text i n y = \<lparr>ident = i, label = Some n, pos_y = y, displayed = True, enabled = True\<rparr>"

definition shuffled_app :: driver where
  "shuffled_app =
     \<lparr>clock = 0,
      screen = (\<lambda>_. page_with BACKYARD_NAMES
                  [name_text 1 ''Bird Springs'' 300, name_text 2 ''Quiet Haven'' 100,
                   name_text 3 ''Calm Palms'' 500]),
      commands = []\<rparr>"

definition ordered_app :: driver where
  "ordered_app =
     \<lparr>clock = 0,
      screen = (\<lambda>_. page_with BACKYARD_NAMES
                  [name_text 2 ''Quiet Haven'' 100, name_text 1 ''Bird Springs'' 300,
                   name_text 3 ''Calm Palms'' 500]),
      commands = []\<rparr>"

text \<open>The search bar comes into view after the first swipe.\<close>

definition below_fold_app :: driver where
  "below_fold_app =
     \<lparr>clock = 0,
      screen = (\<lambda>k. if k < 7 then blank else page_with SEARCH_BAR [search_field]),
      commands = []\<rparr>"

section \<open>The polling loop\<close>

lemma until_loop_frame:
  "\<exists>k\<ge>clock d. snd (until_loop d end_time m) = d\<lparr>clock := k\<rparr>"
proof (induction d end_time m rule: until_loop.induct)
  case (1 d end_time m)
  show ?case
  proof (cases "attempt m (showing d)")
    case (Ready v)
    then have "snd (until_loop d end_time m) = d\<lparr>clock := clock d\<rparr>"
      by (simp add: until_loop.simps [of d])
    then show ?thesis by blast
  next
    case (Abort e)
    then have "snd (until_loop d end_time m) = d\<lparr>clock := clock d\<rparr>"
      by (simp add: until_loop.simps [of d])
    then show ?thesis by blast
  next
    case NotYet
    show ?thesis
    proof (cases "clock d > end_time")
      case True
      with NotYet have "snd (until_loop d end_time m) = d\<lparr>clock := clock d\<rparr>"
        by (simp add: until_loop.simps [of d])
      then show ?thesis by blast
    next
      case False
      with NotYet 1 obtain k where k: "k \<ge> clock d + 1"
        "snd (until_loop (d\<lparr>clock := clock d + 1\<rparr>) end_time m) = d\<lparr>clock := k\<rparr>"
        by fastforce
      from NotYet False have "until_loop d end_time m = until_loop (d\<lparr>clock := clock d + 1\<rparr>) end_time m"
        by (simp add: until_loop.simps [of d])
      with k show ?thesis by (intro exI [of _ k]) simp
    qed
  qed
qed

lemma until_loop_ready:
  assumes "clock d \<le> k" and "k \<le> max (clock d) (end_time + 1)"
    and "\<forall>j. clock d \<le> j \<and> j < k \<longrightarrow> attempt m (screen d j) = NotYet"
    and "attempt m (screen d k) = Ready v"
  shows "until_loop d end_time m = (Inr v, d\<lparr>clock := k\<rparr>)"
  using assms
proof (induction d end_time m rule: until_loop.induct)
  case (1 d end_time m)
  show ?case
  proof (cases "k = clock d")
    case True
    with 1(5) show ?thesis
      by (simp add: until_loop.simps [of d] showing_def)
  next
    case False
    with 1(2,3) have lt: "clock d < k" and le: "\<not> clock d > end_time" by auto
    with 1(4) have ny: "attempt m (showing d) = NotYet" by (simp add: showing_def)
    have "until_loop (d\<lparr>clock := clock d + 1\<rparr>) end_time m
          = (Inr v, d\<lparr>clock := clock d + 1\<rparr>\<lparr>clock := k\<rparr>)"
      using 1(1) [OF ny le] lt le 1(3,4,5) by auto
    with ny le show ?thesis by (simp add: until_loop.simps [of d])
  qed
qed

lemma until_loop_abort:
  assumes "clock d \<le> k" and "k \<le> max (clock d) (end_time + 1)"
    and "\<forall>j. clock d \<le> j \<and> j < k \<longrightarrow> attempt m (screen d j) = NotYet"
    and "attempt m (screen d k) = Abort e"
  shows "until_loop d end_time m = (Inl e, d\<lparr>clock := k\<rparr>)"
  using assms
proof (induction d end_time m rule: until_loop.induct)
  case (1 d end_time m)
  show ?case
  proof (cases "k = clock d")
    case True
    with 1(5) show ?thesis
      by (simp add: until_loop.simps [of d] showing_def)
  next
    case False
    with 1(2,3) have lt: "clock d < k" and le: "\<not> clock d > end_time" by auto
    with 1(4) have ny: "attempt m (showing d) = NotYet" by (simp add: showing_def)
    have "until_loop (d\<lparr>clock := clock d + 1\<rparr>) end_time m
          = (Inl e, d\<lparr>clock := clock d + 1\<rparr>\<lparr>clock := k\<rparr>)"
      using 1(1) [OF ny le] lt le 1(3,4,5) by auto
    with ny le show ?thesis by (simp add: until_loop.simps [of d])
  qed
qed

lemma until_loop_timeout:
  assumes "\<forall>j. clock d \<le> j \<and> j \<le> max (clock d) (end_time + 1) \<longrightarrow> attempt m (screen d j) = NotYet"
  shows "until_loop d end_time m = (Inl TimeoutException, d\<lparr>clock := max (clock d) (end_time + 1)\<rparr>)"
  using assms
proof (induction d end_time m rule: until_loop.induct)
  case (1 d end_time m)
  from 1(2) have ny: "attempt m (showing d) = NotYet" by (simp add: showing_def)
  show ?case
  proof (cases "clock d > end_time")
    case True
    then have "max (clock d) (end_time + 1) = clock d" by simp
    with ny True show ?thesis by (simp add: until_loop.simps [of d])
  next
    case False
    have "until_loop (d\<lparr>clock := clock d + 1\<rparr>) end_time m
          = (Inl TimeoutException, d\<lparr>clock := clock d + 1\<rparr>\<lparr>clock := max (clock d + 1) (end_time + 1)\<rparr>)"
      using 1(1) [OF ny False] False 1(2) by auto
    moreover from False have "max (clock d + 1) (end_time + 1) = max (clock d) (end_time + 1)" by simp
    ultimately show ?thesis using ny False by (simp add: until_loop.simps [of d])
  qed
qed

lemma until_loop_sound:
  "until_loop d end_time m = (r, d') \<Longrightarrow>
     clock d \<le> clock d' \<and> clock d' \<le> max (clock d) (end_time + 1) \<and> d' = d\<lparr>clock := clock d'\<rparr>
     \<and> (\<forall>j. clock d \<le> j \<and> j < clock d' \<longrightarrow> attempt m (screen d j) = NotYet)
     \<and> (case r of Inr v \<Rightarrow> attempt m (screen d (clock d')) = Ready v
         | Inl e \<Rightarrow> if attempt m (screen d (clock d')) = NotYet then e = TimeoutException \<and> clock d' = max (clock d) (end_time + 1)
                    else attempt m (screen d (clock d')) = Abort e)"
proof (induction d end_time m arbitrary: r d' rule: until_loop.induct)
  case (1 d end_time m)
  show ?case
  proof (cases "attempt m (showing d)")
    case (Ready v)
    with 1(2) show ?thesis by (auto simp add: until_loop.simps [of d] showing_def)
  next
    case (Abort e)
    with 1(2) show ?thesis by (auto simp add: until_loop.simps [of d] showing_def)
  next
    case NotYet
    show ?thesis
    proof (cases "clock d > end_time")
      case True
      with NotYet 1(2) show ?thesis by (auto simp add: until_loop.simps [of d] showing_def)
    next
      case False
      with NotYet 1(2) have rec: "until_loop (d\<lparr>clock := clock d + 1\<rparr>) end_time m = (r, d')"
        by (simp add: until_loop.simps [of d])
      note ih = 1(1) [OF NotYet False rec]
      have a: "\<And>j. clock d \<le> j \<Longrightarrow> j < clock d' \<Longrightarrow> attempt m (screen d j) = NotYet"
      proof -
        fix j assume "clock d \<le> j" "j < clock d'"
        show "attempt m (screen d j) = NotYet"
        proof (cases "j = clock d")
          case True with NotYet show ?thesis by (simp add: showing_def)
        next
          case False with ih \<open>clock d \<le> j\<close> \<open>j < clock d'\<close> show ?thesis by simp
        qed
      qed
      from ih False have b: "clock d \<le> clock d'" "clock d' \<le> max (clock d) (end_time + 1)" "d' = d\<lparr>clock := clock d'\<rparr>"
        by (auto simp: max_def split: if_splits) 
      from ih False have c: "(case r of Inr v \<Rightarrow> attempt m (screen d (clock d')) = Ready v
         | Inl e \<Rightarrow> if attempt m (screen d (clock d')) = NotYet then e = TimeoutException \<and> clock d' = max (clock d) (end_time + 1)
                    else attempt m (screen d (clock d')) = Abort e)"
        by (auto simp: max_def split: sum.splits if_splits)
      from a b c show ?thesis by blast
    qed
  qed
qed


section \<open>Properties of the page objects\<close>



lemma attempt_hidden:
  "hidden_at loc d k \<Longrightarrow> attempt (visibility_of_element_located loc) (screen d k) = NotYet"
  by (auto simp: hidden_at_def attempt_def visibility_of_element_located_def find_element_def
      split: list.splits)

lemma attempt_visible:
  "visible_at loc d k \<Longrightarrow>
     attempt (visibility_of_element_located loc) (screen d k) = Ready (hd (tree (screen d k) loc))"
  by (auto simp: visible_at_def attempt_def visibility_of_element_located_def find_element_def
      split: list.splits)

lemma wait_for_element_found:
  assumes "clock d \<le> k" and "k \<le> last_poll d (timeout_or_default timeout)"
    and "\<forall>j. clock d \<le> j \<and> j < k \<longrightarrow> hidden_at loc d j"
    and "visible_at loc d k"
  shows "wait_for_element loc timeout d = (Inr (hd (tree (screen d k) loc)), d\<lparr>clock := k\<rparr>)"
  unfolding wait_for_element_def until_def
proof (rule until_loop_ready)
  show "clock d \<le> k" by fact
  show "k \<le> max (clock d) (clock d + 2 * timeout_or_default timeout + 1)"
    using assms(2) by (simp add: last_poll_def)
  show "\<forall>j. clock d \<le> j \<and> j < k \<longrightarrow>
      attempt (visibility_of_element_located loc) (screen d j) = NotYet"
    using assms(3) by (simp add: attempt_hidden)
  show "attempt (visibility_of_element_located loc) (screen d k) = Ready (hd (tree (screen d k) loc))"
    using assms(4) by (rule attempt_visible)
qed

lemma wait_for_element_expires:
  assumes "\<forall>j. clock d \<le> j \<and> j \<le> last_poll d (timeout_or_default timeout) \<longrightarrow> hidden_at loc d j"
  shows "wait_for_element loc timeout d =
           (Inl TimeoutException, d\<lparr>clock := last_poll d (timeout_or_default timeout)\<rparr>)"
proof -
  have "until_loop d (clock d + 2 * timeout_or_default timeout) (visibility_of_element_located loc)
        = (Inl TimeoutException,
           d\<lparr>clock := max (clock d) (clock d + 2 * timeout_or_default timeout + 1)\<rparr>)"
    by (rule until_loop_timeout) (use assms in \<open>simp add: attempt_hidden last_poll_def\<close>)
  then show ?thesis by (simp add: wait_for_element_def until_def last_poll_def)
qed

lemma is_element_visible_no_timeout:
  "fst (is_element_visible loc timeout d) \<noteq> Inl TimeoutException"
  by (simp add: is_element_visible_def split: prod.splits sum.splits)




text \<open>
  C7. Where the element is visible now, \<^verbatim>\<open>is_element_visible\<close> returns true at once
  and leaves the driver as it was: no command is sent and the clock does not move. So
  any number of repeated calls return true each, on the same state.
\<close>

theorem probe_is_idempotent:
  assumes "visible_at loc d (clock d)"
  shows "is_element_visible loc timeout d = (Inr True, d)
         \<and> (\<forall>n. ((\<lambda>d'. snd (is_element_visible loc timeout d')) ^^ n) d = d)
         \<and> (\<forall>n. fst (is_element_visible loc timeout
                    (((\<lambda>d'. snd (is_element_visible loc timeout d')) ^^ n) d)) = Inr True)"
proof -
  have "wait_for_element loc timeout d = (Inr (hd (tree (screen d (clock d)) loc)), d\<lparr>clock := clock d\<rparr>)"
    by (rule wait_for_element_found) (use assms in \<open>auto simp: last_poll_def\<close>)
  then have once: "is_element_visible loc timeout d = (Inr True, d)"
    by (simp add: is_element_visible_def)
  have again: "((\<lambda>d'. snd (is_element_visible loc timeout d')) ^^ n) d = d" for n
    by (induction n) (simp_all add: once)
  from once again show ?thesis by simp
qed

theorem probe_is_idempotent_witness:
  "visible_at SEARCH_BAR steady_app (clock steady_app)
   \<and> is_element_visible SEARCH_BAR (Some 3) steady_app = (Inr True, steady_app)
   \<and> is_element_visible SEARCH_BAR (Some 3) (snd (is_element_visible SEARCH_BAR (Some 3) steady_app))
       = (Inr True, steady_app)"
proof -
  have h: "visible_at SEARCH_BAR steady_app (clock steady_app)"
    by (simp add: visible_at_def steady_app_def page_with_def search_field_def)
  from probe_is_idempotent [OF h, of "Some 3"] h show ?thesis by simp
qed

lemma until_loop_commands:
  "until_loop d end_time m = (r, d') \<Longrightarrow> commands d' = commands d \<and> screen d' = screen d"
proof -
  assume a: "until_loop d end_time m = (r, d')"
  from until_loop_sound [OF a] have "d' = d\<lparr>clock := clock d'\<rparr>" by simp
  then have "commands d' = commands (d\<lparr>clock := clock d'\<rparr>)" "screen d' = screen (d\<lparr>clock := clock d'\<rparr>)"
    by simp_all
  then show ?thesis by simp
qed

lemma until_loop_value:
  "until_loop d end_time m = (Inr v, d') \<Longrightarrow> m (showing d') = Inr (Some v)"
proof -
  assume a: "until_loop d end_time m = (Inr v, d')"
  from until_loop_sound [OF a] have "attempt m (screen d (clock d')) = Ready v" by simp
  moreover from until_loop_commands [OF a] have "screen d' = screen d" by simp
  ultimately have "attempt m (showing d') = Ready v" by (simp add: showing_def)
  then show ?thesis
    by (auto simp: attempt_def split: sum.splits option.splits if_splits)
qed

lemma find_element_no_fault: "find_element loc s = Inr el \<Longrightarrow> fault s = None"
  by (auto simp: find_element_def split: option.splits)

text \<open>
  C3. \<^verbatim>\<open>tap\<close> first resolves the element under the clickable condition. Where that
  returns an element, the element satisfies the condition on the snapshot it was
  resolved on, and \<^verbatim>\<open>tap\<close> adds exactly one command, the click on this element;
  where it raises, \<^verbatim>\<open>tap\<close> raises the same error and no command has been sent.
\<close>

theorem tap_clicks_once_or_not_at_all:
  "(wait_for_element_clickable loc timeout d = (Inr el, d') \<longrightarrow>
      element_to_be_clickable loc (showing d') = Inr (Some el)
      \<and> tap loc timeout d = (Inr (), d'\<lparr>commands := commands d @ [Click el]\<rparr>))
   \<and> (wait_for_element_clickable loc timeout d = (Inl e, d') \<longrightarrow>
      tap loc timeout d = (Inl e, d') \<and> commands d' = commands d)"
proof (intro conjI impI)
  assume a: "wait_for_element_clickable loc timeout d = (Inr el, d')"
  then have u: "until_loop d (clock d + 2 * timeout_or_default timeout) (element_to_be_clickable loc) = (Inr el, d')"
    by (simp add: wait_for_element_clickable_def until_def)
  from until_loop_value [OF u]
  show c: "element_to_be_clickable loc (showing d') = Inr (Some el)" .
  then have "fault (showing d') = None"
    by (auto simp: element_to_be_clickable_def split: sum.splits dest: find_element_no_fault)
  moreover from until_loop_commands [OF u] have "commands d' = commands d" by simp
  ultimately show "tap loc timeout d = (Inr (), d'\<lparr>commands := commands d @ [Click el]\<rparr>)"
    using a by (simp add: tap_def click_def)
next
  assume a: "wait_for_element_clickable loc timeout d = (Inl e, d')"
  then have u: "until_loop d (clock d + 2 * timeout_or_default timeout) (element_to_be_clickable loc) = (Inl e, d')"
    by (simp add: wait_for_element_clickable_def until_def)
  from a show "tap loc timeout d = (Inl e, d')" by (simp add: tap_def)
  from until_loop_commands [OF u] show "commands d' = commands d" by simp
qed

theorem tap_clicks_once_or_not_at_all_witness:
  "wait_for_element_clickable SEARCH_BAR None late_app = (Inr search_field, late_app\<lparr>clock := 2\<rparr>)
   \<and> tap SEARCH_BAR None late_app = (Inr (), late_app\<lparr>clock := 2, commands := [Click search_field]\<rparr>)
   \<and> wait_for_element_clickable SEARCH_BAR (Some 1) empty_app = (Inl TimeoutException, empty_app\<lparr>clock := 3\<rparr>)
   \<and> tap SEARCH_BAR (Some 1) empty_app = (Inl TimeoutException, empty_app\<lparr>clock := 3\<rparr>)
   \<and> commands (snd (tap SEARCH_BAR (Some 1) empty_app)) = []"
proof -
  have h1: "wait_for_element_clickable SEARCH_BAR None late_app = (Inr search_field, late_app\<lparr>clock := 2\<rparr>)"
    by (simp add: wait_for_element_clickable_def until_def until_loop.simps attempt_def
        element_to_be_clickable_def find_element_def showing_def timeout_or_default_def
        DEFAULT_TIMEOUT_def late_app_def blank_def page_with_def search_field_def)
  have h2: "wait_for_element_clickable SEARCH_BAR (Some 1) empty_app = (Inl TimeoutException, empty_app\<lparr>clock := 3\<rparr>)"
    by (simp add: wait_for_element_clickable_def until_def until_loop.simps attempt_def
        element_to_be_clickable_def find_element_def showing_def timeout_or_default_def
        empty_app_def blank_def)
  have c: "commands late_app = []" "commands empty_app = []"
    by (simp_all add: late_app_def empty_app_def)
  from tap_clicks_once_or_not_at_all [of SEARCH_BAR None late_app search_field "late_app\<lparr>clock := 2\<rparr>"]
    tap_clicks_once_or_not_at_all [of SEARCH_BAR "Some 1" empty_app _ "empty_app\<lparr>clock := 3\<rparr>" TimeoutException]
    h1 h2 c
  show ?thesis by simp
qed

lemma attempt_absent:
  "absent_at loc d k \<Longrightarrow> attempt (presence_of_element_located loc) (screen d k) = NotYet"
  by (simp add: absent_at_def attempt_def presence_of_element_located_def find_element_def)

lemma attempt_present:
  "present_at loc d k \<Longrightarrow>
     attempt (presence_of_element_located loc) (screen d k) = Ready (hd (tree (screen d k) loc))"
  by (auto simp: present_at_def attempt_def presence_of_element_located_def find_element_def
      split: list.splits)

lemma get_elements_found:
  assumes "clock d \<le> k" and "k \<le> last_poll d (timeout_or_default timeout)"
    and "\<forall>j. clock d \<le> j \<and> j < k \<longrightarrow> absent_at loc d j"
    and "present_at loc d k"
  shows "get_elements loc timeout d = (Inr (tree (screen d k) loc), d\<lparr>clock := k\<rparr>)"
proof -
  have "until_loop d (clock d + 2 * timeout_or_default timeout) (presence_of_element_located loc)
        = (Inr (hd (tree (screen d k) loc)), d\<lparr>clock := k\<rparr>)"
  proof (rule until_loop_ready)
    show "clock d \<le> k" by fact
    show "k \<le> max (clock d) (clock d + 2 * timeout_or_default timeout + 1)"
      using assms(2) by (simp add: last_poll_def)
    show "\<forall>j. clock d \<le> j \<and> j < k \<longrightarrow>
        attempt (presence_of_element_located loc) (screen d j) = NotYet"
      using assms(3) by (simp add: attempt_absent)
    show "attempt (presence_of_element_located loc) (screen d k) = Ready (hd (tree (screen d k) loc))"
      using assms(4) by (rule attempt_present)
  qed
  moreover from assms(4) have "find_elements loc (screen d k) = Inr (tree (screen d k) loc)"
    by (simp add: present_at_def find_elements_def)
  ultimately show ?thesis
    by (simp add: get_elements_def until_def showing_def)
qed

lemma get_elements_expires:
  assumes "\<forall>j. clock d \<le> j \<and> j \<le> last_poll d (timeout_or_default timeout) \<longrightarrow> absent_at loc d j"
  shows "get_elements loc timeout d =
           (Inl TimeoutException, d\<lparr>clock := last_poll d (timeout_or_default timeout)\<rparr>)"
proof -
  have "until_loop d (clock d + 2 * timeout_or_default timeout) (presence_of_element_located loc)
        = (Inl TimeoutException,
           d\<lparr>clock := max (clock d) (clock d + 2 * timeout_or_default timeout + 1)\<rparr>)"
    by (rule until_loop_timeout) (use assms in \<open>simp add: attempt_absent last_poll_def\<close>)
  then show ?thesis by (simp add: get_elements_def until_def last_poll_def)
qed







lemma attempt_count_matches:
  "attempt (count_matches expected) s =
     (case count_now BACKYARD_CELLS s of
        Inl e \<Rightarrow> Abort e
      | Inr c \<Rightarrow> if c = expected then Ready True else NotYet)"
  by (auto simp: attempt_def count_matches_def count_now_def find_elements_def
      split: sum.splits option.splits)

text \<open>
  C5. \<^verbatim>\<open>wait_for_backyard_count\<close> over the counts observed at successive polls: where
  poll \<open>k\<close> of the wait is the first to observe the expected count, the wait returns true
  at \<open>k\<close>; and whenever it returns, it returns true, the count at that poll is the
  expected one, and every earlier poll observed another count. Each poll is what
  \<^verbatim>\<open>get_backyard_count(wait=False)\<close> reads.
\<close>

theorem wait_for_backyard_count_first_match:
  "(clock d \<le> k \<and> k \<le> last_poll d timeout
      \<and> (\<forall>j. clock d \<le> j \<and> j < k \<longrightarrow>
            (\<exists>c. count_now BACKYARD_CELLS (screen d j) = Inr c \<and> c \<noteq> expected))
      \<and> count_now BACKYARD_CELLS (screen d k) = Inr expected
    \<longrightarrow> wait_for_backyard_count expected timeout d = (Inr True, d\<lparr>clock := k\<rparr>))
   \<and> (wait_for_backyard_count expected timeout d = (Inr b, d') \<longrightarrow>
        b \<and> count_now BACKYARD_CELLS (showing d') = Inr expected
        \<and> (\<forall>j. clock d \<le> j \<and> j < clock d' \<longrightarrow>
              (\<exists>c. count_now BACKYARD_CELLS (screen d j) = Inr c \<and> c \<noteq> expected)))
   \<and> get_backyard_count False d = (count_now BACKYARD_CELLS (showing d), d)"
proof (intro conjI impI)
  assume a: "clock d \<le> k \<and> k \<le> last_poll d timeout
      \<and> (\<forall>j. clock d \<le> j \<and> j < k \<longrightarrow>
            (\<exists>c. count_now BACKYARD_CELLS (screen d j) = Inr c \<and> c \<noteq> expected))
      \<and> count_now BACKYARD_CELLS (screen d k) = Inr expected"
  have "until_loop d (clock d + 2 * timeout) (count_matches expected) = (Inr True, d\<lparr>clock := k\<rparr>)"
  proof (rule until_loop_ready)
    show "clock d \<le> k" using a by simp
    show "k \<le> max (clock d) (clock d + 2 * timeout + 1)" using a by (simp add: last_poll_def)
    show "\<forall>j. clock d \<le> j \<and> j < k \<longrightarrow> attempt (count_matches expected) (screen d j) = NotYet"
      using a by (auto simp: attempt_count_matches)
    show "attempt (count_matches expected) (screen d k) = Ready True"
      using a by (simp add: attempt_count_matches)
  qed
  then show "wait_for_backyard_count expected timeout d = (Inr True, d\<lparr>clock := k\<rparr>)"
    by (simp add: wait_for_backyard_count_def until_def)
next
  assume "wait_for_backyard_count expected timeout d = (Inr b, d')"
  then have u: "until_loop d (clock d + 2 * timeout) (count_matches expected) = (Inr b, d')"
    by (simp add: wait_for_backyard_count_def until_def)
  note s = until_loop_sound [OF u]
  from until_loop_commands [OF u] have scr: "screen d' = screen d" by simp
  from s have r: "attempt (count_matches expected) (screen d (clock d')) = Ready b" by simp
  then show "b" "count_now BACKYARD_CELLS (showing d') = Inr expected"
    by (auto simp: attempt_count_matches showing_def scr split: sum.splits if_splits)
  show "\<forall>j. clock d \<le> j \<and> j < clock d' \<longrightarrow>
              (\<exists>c. count_now BACKYARD_CELLS (screen d j) = Inr c \<and> c \<noteq> expected)"
  proof (intro allI impI)
    fix j assume "clock d \<le> j \<and> j < clock d'"
    with s have "attempt (count_matches expected) (screen d j) = NotYet" by simp
    then show "\<exists>c. count_now BACKYARD_CELLS (screen d j) = Inr c \<and> c \<noteq> expected"
      by (auto simp: attempt_count_matches split: sum.splits if_splits)
  qed
next
  show "get_backyard_count False d = (count_now BACKYARD_CELLS (showing d), d)"
    by (simp add: get_backyard_count_def get_element_count_def)
qed

theorem wait_for_backyard_count_first_match_witness:
  "count_now BACKYARD_CELLS (screen growing_app 0) = Inr 0
   \<and> count_now BACKYARD_CELLS (screen growing_app 1) = Inr 0
   \<and> count_now BACKYARD_CELLS (screen growing_app 2) = Inr 3
   \<and> wait_for_backyard_count 3 5 growing_app = (Inr True, growing_app\<lparr>clock := 2\<rparr>)
   \<and> count_now BACKYARD_CELLS (showing (growing_app\<lparr>clock := 2\<rparr>)) = Inr 3"
proof -
  have c: "count_now BACKYARD_CELLS (screen growing_app 0) = Inr 0"
    "count_now BACKYARD_CELLS (screen growing_app 1) = Inr 0"
    "count_now BACKYARD_CELLS (screen growing_app 2) = Inr 3"
    by (simp_all add: count_now_def find_elements_def growing_app_def blank_def page_with_def)
  have before: "\<forall>j. clock growing_app \<le> j \<and> j < 2 \<longrightarrow>
            (\<exists>c. count_now BACKYARD_CELLS (screen growing_app j) = Inr c \<and> c \<noteq> 3)"
    by (simp add: count_now_def find_elements_def growing_app_def blank_def)
  have w: "clock growing_app \<le> 2 \<and> 2 \<le> last_poll growing_app 5"
    by (simp add: last_poll_def growing_app_def)
  from wait_for_backyard_count_first_match [of growing_app 2 5 3] w before c
  have r: "wait_for_backyard_count 3 5 growing_app = (Inr True, growing_app\<lparr>clock := 2\<rparr>)"
    by simp
  from wait_for_backyard_count_first_match [of growing_app 2 5 3 True "growing_app\<lparr>clock := 2\<rparr>"] r
  have "count_now BACKYARD_CELLS (showing (growing_app\<lparr>clock := 2\<rparr>)) = Inr 3" by simp
  with c r show ?thesis by simp
qed

lemma get_elements_sound:
  assumes "get_elements loc timeout d = (Inr els, d')"
  shows "fault (showing d') = None \<and> els = tree (showing d') loc \<and> els \<noteq> []
         \<and> commands d' = commands d \<and> screen d' = screen d \<and> clock d \<le> clock d'"
proof -
  from assms obtain el where
    u: "until_loop d (clock d + 2 * timeout_or_default timeout) (presence_of_element_located loc) = (Inr el, d')"
    and f: "find_elements loc (showing d') = Inr els"
    by (auto simp: get_elements_def until_def split: prod.splits sum.splits)
  from until_loop_value [OF u] have "presence_of_element_located loc (showing d') = Inr (Some el)" .
  then have "find_element loc (showing d') = Inr el"
    by (auto simp: presence_of_element_located_def split: sum.splits)
  then have "tree (showing d') loc \<noteq> []"
    by (auto simp: find_element_def split: option.splits list.splits)
  moreover from f have "fault (showing d') = None" "els = tree (showing d') loc"
    by (auto simp: find_elements_def split: option.splits)
  moreover from until_loop_commands [OF u] until_loop_sound [OF u]
  have "commands d' = commands d" "screen d' = screen d" "clock d \<le> clock d'" by simp_all
  ultimately show ?thesis by simp
qed

lemma sort_key_fst_unique:
  fixes xs ys :: "(int \<times> 'a) list"
  assumes "mset xs = mset ys" and "distinct (map fst xs)"
  shows "sort_key fst xs = sort_key fst ys"
proof (rule map_sorted_distinct_set_unique [where f = fst])
  from assms(1) have st: "set xs = set ys" by (rule mset_eq_setD)
  from assms(2) have "inj_on fst (set xs)" by (simp add: distinct_map)
  with st show "inj_on fst (set (sort_key fst xs) \<union> set (sort_key fst ys))" by simp
  show "sorted (map fst (sort_key fst xs))" "sorted (map fst (sort_key fst ys))" by simp_all
  from assms(1) have "mset (map fst xs) = mset (map fst ys)" by (metis mset_map)
  with assms(2) have dy: "distinct (map fst ys)" by (metis mset_eq_imp_distinct_iff)
  have "mset (map fst (sort_key fst xs)) = mset (map fst xs)"
    "mset (map fst (sort_key fst ys)) = mset (map fst ys)" by simp_all
  with assms(2) dy show "distinct (map fst (sort_key fst xs))" "distinct (map fst (sort_key fst ys))"
    by (metis mset_eq_imp_distinct_iff)+
  from st show "set (sort_key fst xs) = set (sort_key fst ys)" by simp
qed

lemma names_do_not_depend_on_order:
  assumes "mset els1 = mset els2" and "distinct (map pos_y els1)"
  shows "map snd (sort_key fst (backyards_with_position els1))
         = map snd (sort_key fst (backyards_with_position els2))"
proof -
  have "mset (backyards_with_position els1) = mset (backyards_with_position els2)"
    using assms(1) by (metis backyards_with_position_def mset_map)
  moreover have "distinct (map fst (backyards_with_position els1))"
    using assms(2) by (simp add: backyards_with_position_def comp_def)
  ultimately show ?thesis by (simp add: sort_key_fst_unique)
qed


text \<open>
  C4. Whatever order the backend returns the name elements in, the names that
  \<^verbatim>\<open>get_backyard_names\<close> returns are those of the whole match set, paired with
  positions that do not decrease along the list; names at the same position keep the
  order of the match set. And two match sets with the same elements at pairwise
  different positions give the same list of names.
\<close>

theorem backyard_names_sorted_by_position:
  "(get_backyard_names d = (Inr names, d') \<longrightarrow>
      (\<exists>ps. mset ps = mset (backyards_with_position (tree (showing d') BACKYARD_NAMES))
           \<and> sorted (map fst ps)
           \<and> (\<forall>y. filter (\<lambda>p. fst p = y) ps
                  = filter (\<lambda>p. fst p = y) (backyards_with_position (tree (showing d') BACKYARD_NAMES)))
           \<and> names = map snd ps))
   \<and> (get_backyard_names d = (Inr names, d') \<and> get_backyard_names d2 = (Inr names2, d2')
        \<and> mset (tree (showing d2') BACKYARD_NAMES) = mset (tree (showing d') BACKYARD_NAMES)
        \<and> distinct (map pos_y (tree (showing d') BACKYARD_NAMES))
      \<longrightarrow> names2 = names)"
proof (intro conjI impI)
  assume a: "get_backyard_names d = (Inr names, d')"
  then obtain els where
    g: "get_elements BACKYARD_NAMES None d = (Inr els, d')"
    and n: "names = map snd (sort_key fst (backyards_with_position els))"
    by (auto simp: get_backyard_names_def split: prod.splits sum.splits)
  from get_elements_sound [OF g] have e: "els = tree (showing d') BACKYARD_NAMES" by simp
  let ?ps = "sort_key fst (backyards_with_position els)"
  have "mset ?ps = mset (backyards_with_position els)" by simp
  moreover have "sorted (map fst ?ps)" by simp
  moreover have "\<forall>y. filter (\<lambda>p. fst p = y) ?ps = filter (\<lambda>p. fst p = y) (backyards_with_position els)"
    by (simp add: sort_key_stable)
  ultimately show "\<exists>ps. mset ps = mset (backyards_with_position (tree (showing d') BACKYARD_NAMES))
           \<and> sorted (map fst ps)
           \<and> (\<forall>y. filter (\<lambda>p. fst p = y) ps
                  = filter (\<lambda>p. fst p = y) (backyards_with_position (tree (showing d') BACKYARD_NAMES)))
           \<and> names = map snd ps"
    using n e by blast
next
  assume a: "get_backyard_names d = (Inr names, d') \<and> get_backyard_names d2 = (Inr names2, d2')
        \<and> mset (tree (showing d2') BACKYARD_NAMES) = mset (tree (showing d') BACKYARD_NAMES)
        \<and> distinct (map pos_y (tree (showing d') BACKYARD_NAMES))"
  then obtain els where
    g: "get_elements BACKYARD_NAMES None d = (Inr els, d')"
    and n: "names = map snd (sort_key fst (backyards_with_position els))"
    by (auto simp: get_backyard_names_def split: prod.splits sum.splits)
  from a obtain els2 where
    g2: "get_elements BACKYARD_NAMES None d2 = (Inr els2, d2')"
    and n2: "names2 = map snd (sort_key fst (backyards_with_position els2))"
    by (auto simp: get_backyard_names_def split: prod.splits sum.splits)
  from get_elements_sound [OF g] have e: "els = tree (showing d') BACKYARD_NAMES" by simp
  from get_elements_sound [OF g2] have e2: "els2 = tree (showing d2') BACKYARD_NAMES" by simp
  from a e e2 have "mset els = mset els2" "distinct (map pos_y els)" by simp_all
  then show "names2 = names" using n n2 by (simp add: names_do_not_depend_on_order)
qed

lemma get_backyard_names_shuffled:
  "get_backyard_names shuffled_app
     = (Inr [Some ''Quiet Haven'', Some ''Bird Springs'', Some ''Calm Palms''], shuffled_app)"
  by (simp add: get_backyard_names_def get_elements_def until_def until_loop.simps attempt_def
      presence_of_element_located_def find_element_def find_elements_def showing_def
      timeout_or_default_def DEFAULT_TIMEOUT_def shuffled_app_def page_with_def
      backyards_with_position_def name_text_def)

lemma get_backyard_names_ordered:
  "\<exists>names. get_backyard_names ordered_app = (Inr names, ordered_app)"
  by (simp add: get_backyard_names_def get_elements_def until_def until_loop.simps attempt_def
      presence_of_element_located_def find_element_def find_elements_def showing_def
      timeout_or_default_def DEFAULT_TIMEOUT_def ordered_app_def page_with_def
      backyards_with_position_def name_text_def)

theorem backyard_names_sorted_by_position_witness:
  "get_backyard_names shuffled_app
     = (Inr [Some ''Quiet Haven'', Some ''Bird Springs'', Some ''Calm Palms''], shuffled_app)
   \<and> (\<exists>ps. mset ps = mset [(300::int, Some ''Bird Springs''), (100, Some ''Quiet Haven''),
                             (500, Some ''Calm Palms'')]
          \<and> sorted (map fst ps)
          \<and> [Some ''Quiet Haven'', Some ''Bird Springs'', Some ''Calm Palms''] = map snd ps)
   \<and> get_backyard_names ordered_app
     = (Inr [Some ''Quiet Haven'', Some ''Bird Springs'', Some ''Calm Palms''], ordered_app)"
proof -
  note h = get_backyard_names_shuffled
  from get_backyard_names_ordered obtain names2 where
    h2: "get_backyard_names ordered_app = (Inr names2, ordered_app)" by blast
  have t: "tree (showing shuffled_app) BACKYARD_NAMES
           = [name_text 1 ''Bird Springs'' 300, name_text 2 ''Quiet Haven'' 100,
              name_text 3 ''Calm Palms'' 500]"
    and t2: "tree (showing ordered_app) BACKYARD_NAMES
           = [name_text 2 ''Quiet Haven'' 100, name_text 1 ''Bird Springs'' 300,
              name_text 3 ''Calm Palms'' 500]"
    by (simp_all add: showing_def shuffled_app_def ordered_app_def page_with_def)
  have m: "mset (tree (showing ordered_app) BACKYARD_NAMES) = mset (tree (showing shuffled_app) BACKYARD_NAMES)"
    unfolding t t2 by simp
  have di: "distinct (map pos_y (tree (showing shuffled_app) BACKYARD_NAMES))"
    unfolding t by (simp add: name_text_def)
  have b: "backyards_with_position (tree (showing shuffled_app) BACKYARD_NAMES)
           = [(300, Some ''Bird Springs''), (100, Some ''Quiet Haven''), (500, Some ''Calm Palms'')]"
    unfolding t by (simp add: backyards_with_position_def name_text_def)
  note inst = backyard_names_sorted_by_position
    [of shuffled_app "[Some ''Quiet Haven'', Some ''Bird Springs'', Some ''Calm Palms'']"
        shuffled_app ordered_app names2 ordered_app]
  from inst h h2 m di have "names2 = [Some ''Quiet Haven'', Some ''Bird Springs'', Some ''Calm Palms'']"
    by blast
  moreover have "\<exists>ps. mset ps = mset (backyards_with_position (tree (showing shuffled_app) BACKYARD_NAMES))
          \<and> sorted (map fst ps)
          \<and> [Some ''Quiet Haven'', Some ''Bird Springs'', Some ''Calm Palms''] = map snd ps"
  proof -
    from inst [THEN conjunct1, THEN mp, OF h] obtain ps where
      "mset ps = mset (backyards_with_position (tree (showing shuffled_app) BACKYARD_NAMES))"
      "sorted (map fst ps)"
      "[Some ''Quiet Haven'', Some ''Bird Springs'', Some ''Calm Palms''] = map snd ps"
      by (elim exE conjE)
    then show ?thesis by (intro exI [of _ ps] conjI)
  qed
  then have "\<exists>ps. mset ps = mset [(300::int, Some ''Bird Springs''), (100, Some ''Quiet Haven''),
                             (500, Some ''Calm Palms'')]
          \<and> sorted (map fst ps)
          \<and> [Some ''Quiet Haven'', Some ''Bird Springs'', Some ''Calm Palms''] = map snd ps"
    unfolding b .
  ultimately show ?thesis using h h2 by simp
qed

lemma py_index_cases:
  "py_index xs i =
     (if 0 \<le> i \<and> i < int (length xs) then Inr (xs ! nat i)
      else if - int (length xs) \<le> i \<and> i < 0 then Inr (xs ! nat (int (length xs) + i))
      else Inl IndexError)"
  by (auto simp: py_index_def Let_def)

lemma click_accepted:
  "fault (showing d) = None \<Longrightarrow> click el d = (Inr (), d\<lparr>commands := commands d @ [Click el]\<rparr>)"
  by (simp add: click_def)

text \<open>
  C9, as the code has it. With \<open>n\<close> cells resolved, \<^verbatim>\<open>tap_backyard_by_index\<close> raises
  \<^verbatim>\<open>IndexError\<close> exactly for an index that is at least \<open>n\<close> or less than \<open>-n\<close>: the
  guard rejects the first, the list access the second. An index from 0 to \<open>n - 1\<close>
  taps that cell, an index from \<open>-n\<close> to \<open>-1\<close> taps the cell counted from the end; the
  resolved list is never empty, so \<open>-1\<close> taps the last cell.
\<close>

theorem tap_backyard_by_index_range:
  assumes "get_backyard_cells d = (Inr cells, d')"
  shows "(fst (tap_backyard_by_index index d) = Inl IndexError
            \<longleftrightarrow> index \<ge> int (length cells) \<or> index < - int (length cells))
         \<and> (0 \<le> index \<and> index < int (length cells) \<longrightarrow>
              tap_backyard_by_index index d
                = (Inr (), d'\<lparr>commands := commands d @ [Click (cells ! nat index)]\<rparr>))
         \<and> (- int (length cells) \<le> index \<and> index < 0 \<longrightarrow>
              tap_backyard_by_index index d
                = (Inr (), d'\<lparr>commands := commands d @ [Click (cells ! nat (int (length cells) + index))]\<rparr>))
         \<and> cells \<noteq> []
         \<and> tap_backyard_by_index (- 1) d
                = (Inr (), d'\<lparr>commands := commands d @ [Click (last cells)]\<rparr>)"
proof -
  from assms have g: "get_elements BACKYARD_CELLS None d = (Inr cells, d')"
    by (simp add: get_backyard_cells_def)
  from get_elements_sound [OF g]
  have nf: "fault (showing d') = None" and ne: "cells \<noteq> []" and co: "commands d' = commands d"
    by blast+
  have inside: "tap_backyard_by_index i d = (Inr (), d'\<lparr>commands := commands d @ [Click (cells ! nat i)]\<rparr>)"
    if "0 \<le> i" "i < int (length cells)" for i
    using that assms by (simp add: tap_backyard_by_index_def py_index_cases click_accepted [OF nf] co)
  have wrapped: "tap_backyard_by_index i d
      = (Inr (), d'\<lparr>commands := commands d @ [Click (cells ! nat (int (length cells) + i))]\<rparr>)"
    if "- int (length cells) \<le> i" "i < 0" for i
    using that assms by (simp add: tap_backyard_by_index_def py_index_cases click_accepted [OF nf] co)
  have above: "fst (tap_backyard_by_index i d) = Inl IndexError" if "i \<ge> int (length cells)" for i
    using that assms by (simp add: tap_backyard_by_index_def)
  have below: "fst (tap_backyard_by_index i d) = Inl IndexError" if "i < - int (length cells)" for i
    using that assms by (simp add: tap_backyard_by_index_def py_index_cases)
  have iff: "fst (tap_backyard_by_index index d) = Inl IndexError
            \<longleftrightarrow> index \<ge> int (length cells) \<or> index < - int (length cells)"
  proof
    assume r: "fst (tap_backyard_by_index index d) = Inl IndexError"
    show "index \<ge> int (length cells) \<or> index < - int (length cells)"
    proof (rule ccontr)
      assume "\<not> (index \<ge> int (length cells) \<or> index < - int (length cells))"
      then consider "0 \<le> index \<and> index < int (length cells)"
        | "- int (length cells) \<le> index \<and> index < 0" by linarith
      then show False
      proof cases
        case 1 with inside [of index] r show False by simp
      next
        case 2 with wrapped [of index] r show False by simp
      qed
    qed
  next
    assume "index \<ge> int (length cells) \<or> index < - int (length cells)"
    then show "fst (tap_backyard_by_index index d) = Inl IndexError"
      using above below by blast
  qed
  from ne have "nat (int (length cells) + (- 1)) = length cells - 1" 
    and "- int (length cells) \<le> - 1" by (simp_all add: Suc_leI)
  with wrapped [of "- 1"] ne
  have lastc: "tap_backyard_by_index (- 1) d = (Inr (), d'\<lparr>commands := commands d @ [Click (last cells)]\<rparr>)"
    by (simp add: last_conv_nth)
  from iff inside [of index] wrapped [of index] ne lastc show ?thesis by simp
qed

lemma get_backyard_cells_growing:
  "get_backyard_cells growing_app
     = (Inr [cell 1 100, cell 2 300, cell 3 500], growing_app\<lparr>clock := 2\<rparr>)"
  by (simp add: get_backyard_cells_def get_elements_def until_def until_loop.simps attempt_def
      presence_of_element_located_def find_element_def find_elements_def showing_def
      timeout_or_default_def DEFAULT_TIMEOUT_def growing_app_def page_with_def blank_def)

theorem tap_backyard_by_index_range_witness:
  "get_backyard_cells growing_app
     = (Inr [cell 1 100, cell 2 300, cell 3 500], growing_app\<lparr>clock := 2\<rparr>)
   \<and> tap_backyard_by_index 1 growing_app
     = (Inr (), growing_app\<lparr>clock := 2, commands := [Click (cell 2 300)]\<rparr>)
   \<and> tap_backyard_by_index (- 1) growing_app
     = (Inr (), growing_app\<lparr>clock := 2, commands := [Click (cell 3 500)]\<rparr>)
   \<and> tap_backyard_by_index (- 3) growing_app
     = (Inr (), growing_app\<lparr>clock := 2, commands := [Click (cell 1 100)]\<rparr>)
   \<and> fst (tap_backyard_by_index 3 growing_app) = Inl IndexError
   \<and> fst (tap_backyard_by_index (- 4) growing_app) = Inl IndexError"
proof -
  note h = get_backyard_cells_growing
  have c: "commands growing_app = []" by (simp add: growing_app_def)
  from tap_backyard_by_index_range [OF h, of 1] c
  have a: "tap_backyard_by_index 1 growing_app
     = (Inr (), growing_app\<lparr>clock := 2, commands := [Click (cell 2 300)]\<rparr>)" by simp
  from tap_backyard_by_index_range [OF h, of "- 1"] c
  have b: "tap_backyard_by_index (- 1) growing_app
     = (Inr (), growing_app\<lparr>clock := 2, commands := [Click (cell 3 500)]\<rparr>)" by simp
  from tap_backyard_by_index_range [OF h, of "- 3"] c
  have b3: "tap_backyard_by_index (- 3) growing_app
     = (Inr (), growing_app\<lparr>clock := 2, commands := [Click (cell 1 100)]\<rparr>)" by simp
  from tap_backyard_by_index_range [OF h, of 3]
  have e: "fst (tap_backyard_by_index 3 growing_app) = Inl IndexError" by simp
  from tap_backyard_by_index_range [OF h, of "- 4"]
  have f: "fst (tap_backyard_by_index (- 4) growing_app) = Inl IndexError" by simp
  from h a b b3 e f show ?thesis by simp
qed

text \<open>
  C9 as stated fails for a negative index below \<open>-n\<close>: with three cells, the index
  \<open>-4\<close> is negative and less than the number of cells, and the call raises
  \<^verbatim>\<open>IndexError\<close>.
\<close>

theorem tap_backyard_by_index_counterexample:
  "get_backyard_cells growing_app
     = (Inr [cell 1 100, cell 2 300, cell 3 500], growing_app\<lparr>clock := 2\<rparr>)
   \<and> (- 4 :: int) < 0
   \<and> \<not> (- 4 \<ge> int (length [cell 1 100, cell 2 300, cell 3 500]))
   \<and> tap_backyard_by_index (- 4) growing_app = (Inl IndexError, growing_app\<lparr>clock := 2\<rparr>)"
  by (simp add: get_backyard_cells_growing tap_backyard_by_index_def py_index_def)

text \<open>
  C2. On a backend that has lost its session, \<^verbatim>\<open>get_bird_names\<close> raises the backend's
  \<^verbatim>\<open>WebDriverException\<close>, and \<^verbatim>\<open>get_bird_count\<close> turns it into the count 0, where
  \<^verbatim>\<open>get_element_count\<close> with the same locator lets it pass.
\<close>

theorem get_bird_count_swallows_backend_error:
  "get_bird_names broken_app = (Inl (WebDriverException ''session lost''), broken_app)
   \<and> get_bird_count broken_app = (Inr 0, broken_app)
   \<and> get_element_count BIRD_NAMES None True broken_app
       = (Inl (WebDriverException ''session lost''), broken_app)"
proof -
  have g: "get_elements BIRD_NAMES None broken_app
           = (Inl (WebDriverException ''session lost''), broken_app)"
    by (simp add: get_elements_def until_def until_loop.simps attempt_def
        presence_of_element_located_def find_element_def showing_def broken_app_def offline_def)
  then show ?thesis
    by (simp add: get_bird_names_def get_bird_count_def get_element_count_def)
qed

lemma wait_for_element_frame:
  assumes "wait_for_element loc timeout d = (r, d1)"
  shows "commands d1 = commands d \<and> screen d1 = screen d \<and> clock d \<le> clock d1
         \<and> clock d1 \<le> last_poll d (timeout_or_default timeout)"
proof -
  from assms have u: "until_loop d (clock d + 2 * timeout_or_default timeout)
      (visibility_of_element_located loc) = (r, d1)"
    by (simp add: wait_for_element_def until_def)
  from until_loop_sound [OF u] until_loop_commands [OF u] show ?thesis
    by (simp add: last_poll_def)
qed

lemma is_element_visible_frame:
  assumes "is_element_visible loc timeout d = (r, d1)"
  shows "commands d1 = commands d \<and> screen d1 = screen d \<and> clock d \<le> clock d1
         \<and> clock d1 \<le> last_poll d (timeout_or_default timeout)"
proof -
  obtain r0 d0 where w: "wait_for_element loc timeout d = (r0, d0)" by (cases "wait_for_element loc timeout d")
  with assms have "d1 = d0"
    by (auto simp: is_element_visible_def split: sum.splits if_splits)
  with wait_for_element_frame [OF w] show ?thesis by simp
qed

lemma is_element_visible_true:
  assumes "is_element_visible loc timeout d = (Inr True, d1)"
  shows "visible_at loc d1 (clock d1)"
proof -
  from assms obtain el where w: "wait_for_element loc timeout d = (Inr el, d1)"
    by (auto simp: is_element_visible_def split: prod.splits sum.splits if_splits)
  then have u: "until_loop d (clock d + 2 * timeout_or_default timeout)
      (visibility_of_element_located loc) = (Inr el, d1)"
    by (simp add: wait_for_element_def until_def)
  from until_loop_value [OF u] have "visibility_of_element_located loc (showing d1) = Inr (Some el)" .
  then show ?thesis
    by (auto simp: visibility_of_element_located_def find_element_def visible_at_def showing_def
        split: sum.splits option.splits list.splits if_splits)
qed

lemma wait_for_element_at_once:
  assumes "visible_at loc d (clock d)"
  shows "wait_for_element loc timeout d = (Inr (hd (tree (showing d) loc)), d)"
proof -
  have "wait_for_element loc timeout d = (Inr (hd (tree (screen d (clock d)) loc)), d\<lparr>clock := clock d\<rparr>)"
    by (rule wait_for_element_found) (use assms in \<open>auto simp: last_poll_def\<close>)
  then show ?thesis by (simp add: showing_def)
qed

lemma visible_at_condition:
  "visible_at loc d (clock d) \<Longrightarrow>
     visibility_of_element_located loc (showing d) = Inr (Some (hd (tree (showing d) loc)))"
  by (auto simp: visibility_of_element_located_def find_element_def visible_at_def showing_def
      split: list.splits)

lemma scroll_down_cases:
  "scroll_down d = (r, d2) \<Longrightarrow>
     (r = Inr () \<and> d2 = d\<lparr>clock := clock d + 1, commands := commands d @ [Swipe]\<rparr>)
     \<or> (\<exists>msg. r = Inl (WebDriverException msg) \<and> d2 = d)"
  by (auto simp: scroll_down_def split: option.splits)

lemma scroll_attempts_sound:
  "scroll_attempts n loc d = (checks, r, d') \<Longrightarrow>
     checks \<le> n \<and> screen d' = screen d \<and> clock d \<le> clock d' \<and> clock d' \<le> clock d + 6 * int n
     \<and> (\<exists>swipes\<le>checks. commands d' = commands d @ replicate swipes Swipe
          \<and> (\<forall>el. r = Inr el \<longrightarrow>
                Suc swipes = checks \<and> visibility_of_element_located loc (showing d') = Inr (Some el))
          \<and> (r = Inl TimeoutException \<longrightarrow> checks = n \<and> swipes = n))"
proof (induction n arbitrary: d checks r d')
  case 0
  then show ?case by auto
next
  case (Suc n)
  obtain r1 d1 where v: "is_element_visible loc (Some 2) d = (r1, d1)"
    by (cases "is_element_visible loc (Some 2) d")
  from is_element_visible_frame [OF v]
  have f1: "commands d1 = commands d" "screen d1 = screen d" "clock d \<le> clock d1"
    "clock d1 \<le> clock d + 5"
    by (simp_all add: last_poll_def timeout_or_default_def)
  show ?case
  proof (cases r1)
    case (Inl e)
    with v is_element_visible_no_timeout [of loc "Some 2" d] have "e \<noteq> TimeoutException" by simp
    moreover from Suc.prems v Inl have "checks = 1" "r = Inl e" "d' = d1" by simp_all
    ultimately show ?thesis using f1 by (intro conjI exI [of _ 0]) simp_all
  next
    case (Inr found)
    show ?thesis
    proof (cases found)
      case True
      with v Inr have vis: "visible_at loc d1 (clock d1)" by (simp add: is_element_visible_true)
      from Suc.prems v Inr True wait_for_element_at_once [OF vis, of None]
      have "checks = 1" "r = Inr (hd (tree (showing d1) loc))" "d' = d1" by auto
      then show ?thesis using f1 visible_at_condition [OF vis]
        by (intro conjI exI [of _ 0]) simp_all
    next
      case False
      obtain r2 d2 where s: "scroll_down d1 = (r2, d2)" by (cases "scroll_down d1")
      from scroll_down_cases [OF s] show ?thesis
      proof (elim disjE conjE exE)
        fix msg assume "r2 = Inl (WebDriverException msg)" "d2 = d1"
        with Suc.prems v Inr False s have "checks = 1" "r = Inl (WebDriverException msg)" "d' = d1"
          by simp_all
        then show ?thesis using f1 by (intro conjI exI [of _ 0]) simp_all
      next
        assume r2: "r2 = Inr ()" and d2: "d2 = d1\<lparr>clock := clock d1 + 1, commands := commands d1 @ [Swipe]\<rparr>"
        obtain c3 r3 d3 where rec: "scroll_attempts n loc d2 = (c3, r3, d3)"
          by (cases "scroll_attempts n loc d2")
        from Suc.prems v Inr False s r2 rec have res: "checks = Suc c3" "r = r3" "d' = d3" by simp_all
        from Suc.IH [OF rec] obtain swipes where ih:
          "c3 \<le> n" "screen d3 = screen d2" "clock d2 \<le> clock d3" "clock d3 \<le> clock d2 + 6 * int n"
          "swipes \<le> c3" "commands d3 = commands d2 @ replicate swipes Swipe"
          "\<forall>el. r3 = Inr el \<longrightarrow>
                Suc swipes = c3 \<and> visibility_of_element_located loc (showing d3) = Inr (Some el)"
          "r3 = Inl TimeoutException \<longrightarrow> c3 = n \<and> swipes = n"
          by blast
        have "commands d' = commands d @ replicate (Suc swipes) Swipe"
          using ih(6) d2 f1 res by (simp add: replicate_append_same)
        moreover have "Suc swipes \<le> checks" using ih(5) res by simp
        moreover have "\<forall>el. r = Inr el \<longrightarrow>
                Suc (Suc swipes) = checks \<and> visibility_of_element_located loc (showing d') = Inr (Some el)"
          using ih(7) res by simp
        moreover have "r = Inl TimeoutException \<longrightarrow> checks = Suc n \<and> Suc swipes = Suc n"
          using ih(8) res by simp
        moreover have "checks \<le> Suc n" "screen d' = screen d" "clock d \<le> clock d'"
          "clock d' \<le> clock d + 6 * int (Suc n)"
          using ih(1-4) d2 f1 res by simp_all
        ultimately show ?thesis by blast
      qed
    qed
  qed
qed

lemma hidden_at_screen: "screen d2 = screen d \<Longrightarrow> hidden_at loc d2 j = hidden_at loc d j"
  by (simp add: hidden_at_def)

lemma scroll_attempts_exhausted:
  "(\<forall>j. clock d \<le> j \<and> j < clock d + 6 * int n \<longrightarrow> hidden_at loc d j) \<Longrightarrow>
     scroll_attempts n loc d
       = (n, Inl TimeoutException,
          d\<lparr>clock := clock d + 6 * int n, commands := commands d @ replicate n Swipe\<rparr>)"
proof (induction n arbitrary: d)
  case 0
  then show ?case by simp
next
  case (Suc n)
  have "\<forall>j. clock d \<le> j \<and> j \<le> last_poll d (timeout_or_default (Some 2)) \<longrightarrow> hidden_at loc d j"
    using Suc.prems by (simp add: last_poll_def timeout_or_default_def)
  from wait_for_element_expires [OF this]
  have v: "is_element_visible loc (Some 2) d = (Inr False, d\<lparr>clock := clock d + 5\<rparr>)"
    by (simp add: is_element_visible_def last_poll_def timeout_or_default_def)
  let ?d1 = "d\<lparr>clock := clock d + 5\<rparr>"
  from Suc.prems have "hidden_at loc d (clock d + 5)" by simp
  then have "fault (showing ?d1) = None" by (simp add: hidden_at_def showing_def)
  then have s: "scroll_down ?d1 = (Inr (), d\<lparr>clock := clock d + 6, commands := commands d @ [Swipe]\<rparr>)"
    by (simp add: scroll_down_def)
  let ?d2 = "d\<lparr>clock := clock d + 6, commands := commands d @ [Swipe]\<rparr>"
  have "\<forall>j. clock ?d2 \<le> j \<and> j < clock ?d2 + 6 * int n \<longrightarrow> hidden_at loc ?d2 j"
    using Suc.prems by (simp add: hidden_at_def)
  from Suc.IH [OF this]
  have "scroll_attempts n loc ?d2
       = (n, Inl TimeoutException,
          d\<lparr>clock := clock d + 6 * int (Suc n), commands := commands d @ replicate (Suc n) Swipe\<rparr>)"
    by (simp add: replicate_append_same algebra_simps)
  with v s show ?case by simp
qed

lemma visible_at_clock [simp]: "visible_at loc (d\<lparr>clock := c\<rparr>) j = visible_at loc d j"
  by (simp add: visible_at_def)

lemma scroll_attempts_found:
  assumes "i < n"
    and "clock d + 6 * int i \<le> k" and "k \<le> clock d + 6 * int i + 5"
    and "\<forall>j. clock d \<le> j \<and> j < k \<longrightarrow> hidden_at loc d j"
    and "visible_at loc d k"
  shows "scroll_attempts n loc d
       = (Suc i, Inr (hd (tree (screen d k) loc)),
          d\<lparr>clock := k, commands := commands d @ replicate i Swipe\<rparr>)"
  using assms
proof (induction i arbitrary: n d)
  case 0
  then obtain n' where n: "n = Suc n'" by (cases n) simp_all
  have w: "wait_for_element loc (Some 2) d = (Inr (hd (tree (screen d k) loc)), d\<lparr>clock := k\<rparr>)"
    by (rule wait_for_element_found)
      (use 0 in \<open>simp_all add: last_poll_def timeout_or_default_def\<close>)
  then have v: "is_element_visible loc (Some 2) d = (Inr True, d\<lparr>clock := k\<rparr>)"
    by (simp add: is_element_visible_def)
  have "visible_at loc (d\<lparr>clock := k\<rparr>) (clock (d\<lparr>clock := k\<rparr>))" using 0 by simp
  from wait_for_element_at_once [OF this, of None]
  have "wait_for_element loc None (d\<lparr>clock := k\<rparr>)
        = (Inr (hd (tree (screen d k) loc)), d\<lparr>clock := k\<rparr>)"
    by (simp add: showing_def)
  with v n show ?case by simp
next
  case (Suc i)
  then obtain n' where n: "n = Suc n'" and i: "i < n'" by (cases n) simp_all
  have "\<forall>j. clock d \<le> j \<and> j \<le> last_poll d (timeout_or_default (Some 2)) \<longrightarrow> hidden_at loc d j"
    using Suc.prems by (simp add: last_poll_def timeout_or_default_def)
  from wait_for_element_expires [OF this]
  have v: "is_element_visible loc (Some 2) d = (Inr False, d\<lparr>clock := clock d + 5\<rparr>)"
    by (simp add: is_element_visible_def last_poll_def timeout_or_default_def)
  let ?d1 = "d\<lparr>clock := clock d + 5\<rparr>"
  from Suc.prems have "hidden_at loc d (clock d + 5)" by simp
  then have "fault (showing ?d1) = None" by (simp add: hidden_at_def showing_def)
  then have s: "scroll_down ?d1 = (Inr (), d\<lparr>clock := clock d + 6, commands := commands d @ [Swipe]\<rparr>)"
    by (simp add: scroll_down_def)
  let ?d2 = "d\<lparr>clock := clock d + 6, commands := commands d @ [Swipe]\<rparr>"
  have "scroll_attempts n' loc ?d2
       = (Suc i, Inr (hd (tree (screen ?d2 k) loc)),
          ?d2\<lparr>clock := k, commands := commands ?d2 @ replicate i Swipe\<rparr>)"
  proof (rule Suc.IH [OF i])
    show "clock ?d2 + 6 * int i \<le> k" using Suc.prems by simp
    show "k \<le> clock ?d2 + 6 * int i + 5" using Suc.prems by simp
    show "\<forall>j. clock ?d2 \<le> j \<and> j < k \<longrightarrow> hidden_at loc ?d2 j"
      using Suc.prems by (simp add: hidden_at_def)
    show "visible_at loc ?d2 k" using Suc.prems by (simp add: visible_at_def)
  qed
  then have "scroll_attempts n' loc ?d2
       = (Suc i, Inr (hd (tree (screen d k) loc)),
          d\<lparr>clock := k, commands := commands d @ replicate (Suc i) Swipe\<rparr>)"
    by (simp add: replicate_append_same)
  with v s n show ?case by simp
qed

text \<open>
  C10. \<^verbatim>\<open>scroll_to_element\<close> is a total function: its loop runs through at most
  \<open>max_scrolls\<close> iterations, each a bounded wait. It makes at most \<open>max_scrolls\<close>
  visibility checks and sends at most as many swipes as checks, and nothing else; it
  returns within 6 ticks (3 seconds) per allowed scroll. Where it returns an element,
  the last check found it visible and the swipes are one fewer than the checks, so none
  follows that check. Where it raises \<^verbatim>\<open>TimeoutException\<close>, all \<open>max_scrolls\<close> checks
  and swipes have been made; and it does raise it where the element stays hidden
  throughout. A check that finds the element visible ends the loop: the first check
  returns the element with no swipe at all, and where the element stays hidden through
  \<open>i\<close> checks, fewer than \<open>max_scrolls\<close>, and shows at poll \<open>k\<close> of the next check, the
  call returns it at \<open>k\<close> after \<open>i + 1\<close> checks and \<open>i\<close> swipes.
\<close>

theorem scroll_to_element_bounded:
  "scroll_to_element loc max_scrolls d = snd (scroll_attempts (nat max_scrolls) loc d)
   \<and> (scroll_attempts (nat max_scrolls) loc d = (checks, r, d') \<longrightarrow>
        checks \<le> nat max_scrolls
        \<and> clock d \<le> clock d' \<and> clock d' \<le> clock d + 6 * int (nat max_scrolls)
        \<and> (\<exists>swipes\<le>checks. commands d' = commands d @ replicate swipes Swipe
             \<and> (\<forall>el. r = Inr el \<longrightarrow>
                   Suc swipes = checks
                   \<and> visibility_of_element_located loc (showing d') = Inr (Some el))
             \<and> (r = Inl TimeoutException \<longrightarrow>
                   checks = nat max_scrolls \<and> swipes = nat max_scrolls)))
   \<and> ((\<forall>j. clock d \<le> j \<and> j < clock d + 6 * int (nat max_scrolls) \<longrightarrow> hidden_at loc d j) \<longrightarrow>
        scroll_to_element loc max_scrolls d
          = (Inl TimeoutException,
             d\<lparr>clock := clock d + 6 * int (nat max_scrolls),
               commands := commands d @ replicate (nat max_scrolls) Swipe\<rparr>))
   \<and> (0 < max_scrolls \<and> is_element_visible loc (Some 2) d = (Inr True, d1) \<longrightarrow>
        scroll_attempts (nat max_scrolls) loc d = (1, Inr (hd (tree (showing d1) loc)), d1)
        \<and> scroll_to_element loc max_scrolls d = (Inr (hd (tree (showing d1) loc)), d1)
        \<and> commands d1 = commands d)
   \<and> (i < nat max_scrolls \<and> clock d + 6 * int i \<le> k \<and> k \<le> clock d + 6 * int i + 5
        \<and> (\<forall>j. clock d \<le> j \<and> j < k \<longrightarrow> hidden_at loc d j) \<and> visible_at loc d k \<longrightarrow>
        scroll_attempts (nat max_scrolls) loc d
          = (Suc i, Inr (hd (tree (screen d k) loc)),
             d\<lparr>clock := k, commands := commands d @ replicate i Swipe\<rparr>)
        \<and> scroll_to_element loc max_scrolls d
          = (Inr (hd (tree (screen d k) loc)),
             d\<lparr>clock := k, commands := commands d @ replicate i Swipe\<rparr>))"
proof (intro conjI impI)
  show "scroll_to_element loc max_scrolls d = snd (scroll_attempts (nat max_scrolls) loc d)"
    by (simp add: scroll_to_element_def)
next
  assume a: "scroll_attempts (nat max_scrolls) loc d = (checks, r, d')"
  from scroll_attempts_sound [OF a]
  show "checks \<le> nat max_scrolls" "clock d \<le> clock d'"
    "clock d' \<le> clock d + 6 * int (nat max_scrolls)"
    "\<exists>swipes\<le>checks. commands d' = commands d @ replicate swipes Swipe
             \<and> (\<forall>el. r = Inr el \<longrightarrow>
                   Suc swipes = checks
                   \<and> visibility_of_element_located loc (showing d') = Inr (Some el))
             \<and> (r = Inl TimeoutException \<longrightarrow>
                   checks = nat max_scrolls \<and> swipes = nat max_scrolls)"
    by blast+
next
  assume "\<forall>j. clock d \<le> j \<and> j < clock d + 6 * int (nat max_scrolls) \<longrightarrow> hidden_at loc d j"
  from scroll_attempts_exhausted [OF this]
  show "scroll_to_element loc max_scrolls d
          = (Inl TimeoutException,
             d\<lparr>clock := clock d + 6 * int (nat max_scrolls),
               commands := commands d @ replicate (nat max_scrolls) Swipe\<rparr>)"
    by (simp add: scroll_to_element_def)
next
  assume a: "0 < max_scrolls \<and> is_element_visible loc (Some 2) d = (Inr True, d1)"
  then obtain n where n: "nat max_scrolls = Suc n" by (cases "nat max_scrolls") simp_all
  from a have v: "is_element_visible loc (Some 2) d = (Inr True, d1)" by simp
  from is_element_visible_true [OF v] have vis: "visible_at loc d1 (clock d1)" .
  from wait_for_element_at_once [OF vis, of None] v n
  show first: "scroll_attempts (nat max_scrolls) loc d = (1, Inr (hd (tree (showing d1) loc)), d1)"
    by simp
  then show "scroll_to_element loc max_scrolls d = (Inr (hd (tree (showing d1) loc)), d1)"
    by (simp add: scroll_to_element_def)
  from is_element_visible_frame [OF v] show "commands d1 = commands d" by simp
next
  assume a: "i < nat max_scrolls \<and> clock d + 6 * int i \<le> k \<and> k \<le> clock d + 6 * int i + 5
        \<and> (\<forall>j. clock d \<le> j \<and> j < k \<longrightarrow> hidden_at loc d j) \<and> visible_at loc d k"
  then show found: "scroll_attempts (nat max_scrolls) loc d
          = (Suc i, Inr (hd (tree (screen d k) loc)),
             d\<lparr>clock := k, commands := commands d @ replicate i Swipe\<rparr>)"
    by (intro scroll_attempts_found) simp_all
  then show "scroll_to_element loc max_scrolls d
          = (Inr (hd (tree (screen d k) loc)),
             d\<lparr>clock := k, commands := commands d @ replicate i Swipe\<rparr>)"
    by (simp add: scroll_to_element_def)
qed

lemma is_element_visible_steady:
  "is_element_visible SEARCH_BAR (Some 2) steady_app = (Inr True, steady_app)"
  by (simp add: is_element_visible_def wait_for_element_def until_def until_loop.simps
      attempt_def visibility_of_element_located_def find_element_def showing_def
      timeout_or_default_def steady_app_def page_with_def search_field_def)

theorem scroll_to_element_bounded_witness:
  "scroll_attempts (nat 5) SEARCH_BAR below_fold_app
     = (2, Inr search_field, below_fold_app\<lparr>clock := 7, commands := [Swipe]\<rparr>)
   \<and> scroll_to_element SEARCH_BAR 5 below_fold_app
     = (Inr search_field, below_fold_app\<lparr>clock := 7, commands := [Swipe]\<rparr>)
   \<and> (2::nat) \<le> nat 5
   \<and> (\<exists>swipes\<le>2. [Swipe] = commands below_fold_app @ replicate swipes Swipe \<and> Suc swipes = 2)
   \<and> scroll_to_element SEARCH_BAR 2 empty_app
     = (Inl TimeoutException, empty_app\<lparr>clock := 12, commands := [Swipe, Swipe]\<rparr>)
   \<and> scroll_to_element SEARCH_BAR 1 steady_app = (Inr search_field, steady_app)"
proof -
  have hyp: "(1::nat) < nat 5 \<and> clock below_fold_app + 6 * int 1 \<le> 7
        \<and> 7 \<le> clock below_fold_app + 6 * int 1 + 5
        \<and> (\<forall>j. clock below_fold_app \<le> j \<and> j < 7 \<longrightarrow> hidden_at SEARCH_BAR below_fold_app j)
        \<and> visible_at SEARCH_BAR below_fold_app 7"
    by (simp add: hidden_at_def visible_at_def below_fold_app_def blank_def page_with_def
        search_field_def)
  have el: "hd (tree (screen below_fold_app 7) SEARCH_BAR) = search_field"
    and c0: "commands below_fold_app = []"
    by (simp_all add: below_fold_app_def page_with_def)
  note inst = scroll_to_element_bounded
    [of SEARCH_BAR 5 below_fold_app 2 "Inr search_field"
        "below_fold_app\<lparr>clock := 7, commands := [Swipe]\<rparr>" _ 1 7]
  from inst [THEN conjunct2, THEN conjunct2, THEN conjunct2, THEN conjunct2, THEN mp, OF hyp]
  have h: "scroll_attempts (nat 5) SEARCH_BAR below_fold_app
     = (2, Inr search_field, below_fold_app\<lparr>clock := 7, commands := [Swipe]\<rparr>)"
    and a: "scroll_to_element SEARCH_BAR 5 below_fold_app
     = (Inr search_field, below_fold_app\<lparr>clock := 7, commands := [Swipe]\<rparr>)"
    unfolding el c0 by simp_all
  from inst [THEN conjunct2, THEN conjunct1, THEN mp, OF h]
  obtain swipes where b: "(2::nat) \<le> nat 5" and "swipes \<le> 2"
    "commands (below_fold_app\<lparr>clock := 7, commands := [Swipe]\<rparr>)
       = commands below_fold_app @ replicate swipes Swipe"
    "\<forall>el. (Inr search_field :: error + element) = Inr el \<longrightarrow> Suc swipes = 2
        \<and> visibility_of_element_located SEARCH_BAR
             (showing (below_fold_app\<lparr>clock := 7, commands := [Swipe]\<rparr>)) = Inr (Some el)"
    by blast
  then have c: "\<exists>swipes\<le>2. [Swipe] = commands below_fold_app @ replicate swipes Swipe \<and> Suc swipes = 2"
    by (intro exI [of _ swipes]) simp
  have hid: "\<forall>j. clock empty_app \<le> j \<and> j < clock empty_app + 6 * int (nat 2)
               \<longrightarrow> hidden_at SEARCH_BAR empty_app j"
    by (simp add: hidden_at_def empty_app_def blank_def)
  have e: "clock empty_app = 0" "commands empty_app = []" by (simp_all add: empty_app_def)
  have r2: "replicate (nat 2) Swipe = [Swipe, Swipe]" by (simp add: eval_nat_numeral)
  from scroll_to_element_bounded [of SEARCH_BAR 2 empty_app, THEN conjunct2, THEN conjunct2,
      THEN conjunct1, THEN mp, OF hid]
  have d: "scroll_to_element SEARCH_BAR 2 empty_app
     = (Inl TimeoutException, empty_app\<lparr>clock := 12, commands := [Swipe, Swipe]\<rparr>)"
    unfolding e r2 by simp
  have st: "(0::int) < 1 \<and> is_element_visible SEARCH_BAR (Some 2) steady_app = (Inr True, steady_app)"
    by (simp add: is_element_visible_steady)
  have el2: "hd (tree (showing steady_app) SEARCH_BAR) = search_field"
    by (simp add: showing_def steady_app_def page_with_def)
  from scroll_to_element_bounded [of SEARCH_BAR 1 steady_app _ _ _ steady_app, THEN conjunct2,
      THEN conjunct2, THEN conjunct2, THEN conjunct1, THEN mp, OF st]
  have f: "scroll_to_element SEARCH_BAR 1 steady_app = (Inr search_field, steady_app)"
    unfolding el2 by simp
  from h a b c d f show ?thesis by blast
qed

lemma until_found:
  assumes "clock d \<le> k" and "k \<le> last_poll d timeout"
    and "\<forall>j. clock d \<le> j \<and> j < k \<longrightarrow> attempt m (screen d j) = NotYet"
    and "attempt m (screen d k) = Ready v"
  shows "until d timeout m = (Inr v, d\<lparr>clock := k\<rparr>)"
  unfolding until_def
  by (rule until_loop_ready) (use assms in \<open>simp_all add: last_poll_def\<close>)

lemma until_expires:
  assumes "\<forall>j. clock d \<le> j \<and> j \<le> last_poll d timeout \<longrightarrow> attempt m (screen d j) = NotYet"
  shows "until d timeout m = (Inl TimeoutException, d\<lparr>clock := last_poll d timeout\<rparr>)"
proof -
  have "until_loop d (clock d + 2 * timeout) m
        = (Inl TimeoutException, d\<lparr>clock := max (clock d) (clock d + 2 * timeout + 1)\<rparr>)"
    by (rule until_loop_timeout) (use assms in \<open>simp add: last_poll_def\<close>)
  then show ?thesis by (simp add: until_def last_poll_def)
qed

lemma attempt_unclickable:
  "unclickable_at loc d k \<Longrightarrow> attempt (element_to_be_clickable loc) (screen d k) = NotYet"
  by (auto simp: unclickable_at_def attempt_def element_to_be_clickable_def find_element_def
      split: list.splits)

lemma attempt_clickable:
  "clickable_at loc d k \<Longrightarrow>
     attempt (element_to_be_clickable loc) (screen d k) = Ready (hd (tree (screen d k) loc))"
  by (auto simp: clickable_at_def attempt_def element_to_be_clickable_def find_element_def
      split: list.splits)

lemma attempt_still_visible:
  "visible_at loc d k \<Longrightarrow> attempt (invisibility_of_element_located loc) (screen d k) = NotYet"
  by (auto simp: visible_at_def attempt_def invisibility_of_element_located_def find_element_def
      split: list.splits)

lemma attempt_gone:
  "hidden_at loc d k \<Longrightarrow>
     attempt (invisibility_of_element_located loc) (screen d k) = Ready (gone_value loc d k)"
  by (auto simp: hidden_at_def attempt_def invisibility_of_element_located_def find_element_def
      gone_value_def split: list.splits)

lemma zero_window: "last_poll d (timeout_or_default (Some 0)) = clock d + 21"
  by (simp add: last_poll_def timeout_or_default_def DEFAULT_TIMEOUT_def)

text \<open>
  C8. For each of the four wait operations of BasePage, a timeout of 0 is replaced by
  the default of 10 seconds, so the call behaves exactly like a call without timeout.
  None of the four is a single immediate check: called with timeout 0, each keeps
  polling until its condition holds, at any poll up to tick 21 after the call, and
  returns what the condition gives at that poll; and each raises
  \<^verbatim>\<open>TimeoutException\<close> only at tick 21, where its condition has failed at every poll
  until then.
\<close>

theorem zero_timeout_falls_back_to_default:
  "timeout_or_default (Some 0) = 10
   \<and> last_poll d (timeout_or_default (Some 0)) = clock d + 21
   \<and> wait_for_element loc (Some 0) d = wait_for_element loc None d
   \<and> wait_for_element_clickable loc (Some 0) d = wait_for_element_clickable loc None d
   \<and> wait_for_element_invisible loc (Some 0) d = wait_for_element_invisible loc None d
   \<and> get_elements loc (Some 0) d = get_elements loc None d
   \<and> (clock d \<le> k \<and> k \<le> clock d + 21
        \<and> (\<forall>j. clock d \<le> j \<and> j < k \<longrightarrow> hidden_at loc d j) \<and> visible_at loc d k \<longrightarrow>
      wait_for_element loc (Some 0) d = (Inr (hd (tree (screen d k) loc)), d\<lparr>clock := k\<rparr>))
   \<and> ((\<forall>j. clock d \<le> j \<and> j \<le> clock d + 21 \<longrightarrow> hidden_at loc d j) \<longrightarrow>
      wait_for_element loc (Some 0) d = (Inl TimeoutException, d\<lparr>clock := clock d + 21\<rparr>))
   \<and> (clock d \<le> k \<and> k \<le> clock d + 21
        \<and> (\<forall>j. clock d \<le> j \<and> j < k \<longrightarrow> unclickable_at loc d j) \<and> clickable_at loc d k \<longrightarrow>
      wait_for_element_clickable loc (Some 0) d
        = (Inr (hd (tree (screen d k) loc)), d\<lparr>clock := k\<rparr>))
   \<and> ((\<forall>j. clock d \<le> j \<and> j \<le> clock d + 21 \<longrightarrow> unclickable_at loc d j) \<longrightarrow>
      wait_for_element_clickable loc (Some 0) d
        = (Inl TimeoutException, d\<lparr>clock := clock d + 21\<rparr>))
   \<and> (clock d \<le> k \<and> k \<le> clock d + 21
        \<and> (\<forall>j. clock d \<le> j \<and> j < k \<longrightarrow> visible_at loc d j) \<and> hidden_at loc d k \<longrightarrow>
      wait_for_element_invisible loc (Some 0) d = (Inr (gone_value loc d k), d\<lparr>clock := k\<rparr>))
   \<and> ((\<forall>j. clock d \<le> j \<and> j \<le> clock d + 21 \<longrightarrow> visible_at loc d j) \<longrightarrow>
      wait_for_element_invisible loc (Some 0) d
        = (Inl TimeoutException, d\<lparr>clock := clock d + 21\<rparr>))
   \<and> (clock d \<le> k \<and> k \<le> clock d + 21
        \<and> (\<forall>j. clock d \<le> j \<and> j < k \<longrightarrow> absent_at loc d j) \<and> present_at loc d k \<longrightarrow>
      get_elements loc (Some 0) d = (Inr (tree (screen d k) loc), d\<lparr>clock := k\<rparr>))
   \<and> ((\<forall>j. clock d \<le> j \<and> j \<le> clock d + 21 \<longrightarrow> absent_at loc d j) \<longrightarrow>
      get_elements loc (Some 0) d = (Inl TimeoutException, d\<lparr>clock := clock d + 21\<rparr>))
   \<and> wait_for_element SEARCH_BAR (Some 0) late_app = (Inr search_field, late_app\<lparr>clock := 2\<rparr>)
   \<and> wait_for_element SEARCH_BAR (Some 0) empty_app
       = (Inl TimeoutException, empty_app\<lparr>clock := 21\<rparr>)"
proof (intro conjI impI)
  show "timeout_or_default (Some 0) = 10"
    by (simp add: timeout_or_default_def DEFAULT_TIMEOUT_def)
  show "last_poll d (timeout_or_default (Some 0)) = clock d + 21" by (rule zero_window)
  have eq: "timeout_or_default (Some 0) = timeout_or_default None"
    by (simp add: timeout_or_default_def)
  show "wait_for_element loc (Some 0) d = wait_for_element loc None d"
    by (simp add: wait_for_element_def eq)
  show "wait_for_element_clickable loc (Some 0) d = wait_for_element_clickable loc None d"
    by (simp add: wait_for_element_clickable_def eq)
  show "wait_for_element_invisible loc (Some 0) d = wait_for_element_invisible loc None d"
    by (simp add: wait_for_element_invisible_def eq)
  show "get_elements loc (Some 0) d = get_elements loc None d"
    by (simp add: get_elements_def eq)
next
  assume "clock d \<le> k \<and> k \<le> clock d + 21
        \<and> (\<forall>j. clock d \<le> j \<and> j < k \<longrightarrow> hidden_at loc d j) \<and> visible_at loc d k"
  then show "wait_for_element loc (Some 0) d = (Inr (hd (tree (screen d k) loc)), d\<lparr>clock := k\<rparr>)"
    by (intro wait_for_element_found) (simp_all add: zero_window)
next
  assume "\<forall>j. clock d \<le> j \<and> j \<le> clock d + 21 \<longrightarrow> hidden_at loc d j"
  then have "\<forall>j. clock d \<le> j \<and> j \<le> last_poll d (timeout_or_default (Some 0)) \<longrightarrow> hidden_at loc d j"
    by (simp add: zero_window)
  from wait_for_element_expires [OF this]
  show "wait_for_element loc (Some 0) d = (Inl TimeoutException, d\<lparr>clock := clock d + 21\<rparr>)"
    by (simp add: zero_window)
next
  assume a: "clock d \<le> k \<and> k \<le> clock d + 21
        \<and> (\<forall>j. clock d \<le> j \<and> j < k \<longrightarrow> unclickable_at loc d j) \<and> clickable_at loc d k"
  show "wait_for_element_clickable loc (Some 0) d
        = (Inr (hd (tree (screen d k) loc)), d\<lparr>clock := k\<rparr>)"
    unfolding wait_for_element_clickable_def
    by (rule until_found) (use a in \<open>simp_all add: zero_window attempt_unclickable attempt_clickable\<close>)
next
  assume a: "\<forall>j. clock d \<le> j \<and> j \<le> clock d + 21 \<longrightarrow> unclickable_at loc d j"
  have "until d (timeout_or_default (Some 0)) (element_to_be_clickable loc)
        = (Inl TimeoutException, d\<lparr>clock := last_poll d (timeout_or_default (Some 0))\<rparr>)"
    by (rule until_expires) (use a in \<open>simp add: zero_window attempt_unclickable\<close>)
  then show "wait_for_element_clickable loc (Some 0) d
        = (Inl TimeoutException, d\<lparr>clock := clock d + 21\<rparr>)"
    by (simp add: wait_for_element_clickable_def zero_window)
next
  assume a: "clock d \<le> k \<and> k \<le> clock d + 21
        \<and> (\<forall>j. clock d \<le> j \<and> j < k \<longrightarrow> visible_at loc d j) \<and> hidden_at loc d k"
  show "wait_for_element_invisible loc (Some 0) d = (Inr (gone_value loc d k), d\<lparr>clock := k\<rparr>)"
    unfolding wait_for_element_invisible_def
    by (rule until_found) (use a in \<open>simp_all add: zero_window attempt_still_visible attempt_gone\<close>)
next
  assume a: "\<forall>j. clock d \<le> j \<and> j \<le> clock d + 21 \<longrightarrow> visible_at loc d j"
  have "until d (timeout_or_default (Some 0)) (invisibility_of_element_located loc)
        = (Inl TimeoutException, d\<lparr>clock := last_poll d (timeout_or_default (Some 0))\<rparr>)"
    by (rule until_expires) (use a in \<open>simp add: zero_window attempt_still_visible\<close>)
  then show "wait_for_element_invisible loc (Some 0) d
        = (Inl TimeoutException, d\<lparr>clock := clock d + 21\<rparr>)"
    by (simp add: wait_for_element_invisible_def zero_window)
next
  assume "clock d \<le> k \<and> k \<le> clock d + 21
        \<and> (\<forall>j. clock d \<le> j \<and> j < k \<longrightarrow> absent_at loc d j) \<and> present_at loc d k"
  then show "get_elements loc (Some 0) d = (Inr (tree (screen d k) loc), d\<lparr>clock := k\<rparr>)"
    by (intro get_elements_found) (simp_all add: zero_window)
next
  assume "\<forall>j. clock d \<le> j \<and> j \<le> clock d + 21 \<longrightarrow> absent_at loc d j"
  then have "\<forall>j. clock d \<le> j \<and> j \<le> last_poll d (timeout_or_default (Some 0)) \<longrightarrow> absent_at loc d j"
    by (simp add: zero_window)
  from get_elements_expires [OF this]
  show "get_elements loc (Some 0) d = (Inl TimeoutException, d\<lparr>clock := clock d + 21\<rparr>)"
    by (simp add: zero_window)
next
  have "wait_for_element SEARCH_BAR (Some 0) late_app
      = (Inr (hd (tree (screen late_app 2) SEARCH_BAR)), late_app\<lparr>clock := 2\<rparr>)"
    by (rule wait_for_element_found)
      (simp_all add: zero_window hidden_at_def visible_at_def late_app_def blank_def
        page_with_def search_field_def)
  then show "wait_for_element SEARCH_BAR (Some 0) late_app = (Inr search_field, late_app\<lparr>clock := 2\<rparr>)"
    by (simp add: late_app_def page_with_def)
next
  have "wait_for_element SEARCH_BAR (Some 0) empty_app
      = (Inl TimeoutException, empty_app\<lparr>clock := last_poll empty_app (timeout_or_default (Some 0))\<rparr>)"
    by (rule wait_for_element_expires) (simp add: hidden_at_def empty_app_def blank_def)
  then show "wait_for_element SEARCH_BAR (Some 0) empty_app
       = (Inl TimeoutException, empty_app\<lparr>clock := 21\<rparr>)"
    by (simp add: zero_window empty_app_def)
qed


theorem zero_timeout_falls_back_to_default_witness:
  "wait_for_element SEARCH_BAR (Some 0) late_app = (Inr search_field, late_app\<lparr>clock := 2\<rparr>)
   \<and> wait_for_element_clickable SEARCH_BAR (Some 0) late_app
       = (Inr search_field, late_app\<lparr>clock := 2\<rparr>)
   \<and> get_elements SEARCH_BAR (Some 0) late_app = (Inr [search_field], late_app\<lparr>clock := 2\<rparr>)
   \<and> wait_for_element SEARCH_BAR (Some 0) empty_app
       = (Inl TimeoutException, empty_app\<lparr>clock := 21\<rparr>)
   \<and> wait_for_element_clickable SEARCH_BAR (Some 0) empty_app
       = (Inl TimeoutException, empty_app\<lparr>clock := 21\<rparr>)
   \<and> get_elements SEARCH_BAR (Some 0) empty_app
       = (Inl TimeoutException, empty_app\<lparr>clock := 21\<rparr>)
   \<and> wait_for_element_invisible SEARCH_BAR (Some 0) vanishing_app
       = (Inr PyTrue, vanishing_app\<lparr>clock := 2\<rparr>)
   \<and> wait_for_element_invisible SEARCH_BAR (Some 0) steady_app
       = (Inl TimeoutException, steady_app\<lparr>clock := 21\<rparr>)"
proof -
  have c: "clock late_app = 0" "clock empty_app = 0" "clock vanishing_app = 0" "clock steady_app = 0"
    by (simp_all add: late_app_def empty_app_def vanishing_app_def steady_app_def)
  have late:
    "\<forall>j. 0 \<le> j \<and> j < 2 \<longrightarrow> hidden_at SEARCH_BAR late_app j" "visible_at SEARCH_BAR late_app 2"
    "\<forall>j. 0 \<le> j \<and> j < 2 \<longrightarrow> unclickable_at SEARCH_BAR late_app j" "clickable_at SEARCH_BAR late_app 2"
    "\<forall>j. 0 \<le> j \<and> j < 2 \<longrightarrow> absent_at SEARCH_BAR late_app j" "present_at SEARCH_BAR late_app 2"
    by (simp_all add: hidden_at_def visible_at_def unclickable_at_def clickable_at_def
        absent_at_def present_at_def late_app_def blank_def page_with_def search_field_def)
  have t: "tree (screen late_app 2) SEARCH_BAR = [search_field]"
    by (simp add: late_app_def page_with_def)
  have never:
    "\<forall>j. 0 \<le> j \<and> j \<le> 0 + 21 \<longrightarrow> hidden_at SEARCH_BAR empty_app j"
    "\<forall>j. 0 \<le> j \<and> j \<le> 0 + 21 \<longrightarrow> unclickable_at SEARCH_BAR empty_app j"
    "\<forall>j. 0 \<le> j \<and> j \<le> 0 + 21 \<longrightarrow> absent_at SEARCH_BAR empty_app j"
    by (simp_all add: hidden_at_def unclickable_at_def absent_at_def empty_app_def blank_def)
  have vanish:
    "\<forall>j. 0 \<le> j \<and> j < 2 \<longrightarrow> visible_at SEARCH_BAR vanishing_app j"
    "hidden_at SEARCH_BAR vanishing_app 2" "gone_value SEARCH_BAR vanishing_app 2 = PyTrue"
    by (simp_all add: hidden_at_def visible_at_def gone_value_def vanishing_app_def blank_def
        page_with_def search_field_def)
  have steady: "\<forall>j. 0 \<le> j \<and> j \<le> 0 + 21 \<longrightarrow> visible_at SEARCH_BAR steady_app j"
    by (simp add: visible_at_def steady_app_def page_with_def search_field_def)
  note i1 = zero_timeout_falls_back_to_default [where d = late_app and loc = SEARCH_BAR and k = 2,
      unfolded c]
  note i2 = zero_timeout_falls_back_to_default [where d = empty_app and loc = SEARCH_BAR and k = 0,
      unfolded c]
  note i3 = zero_timeout_falls_back_to_default [where d = vanishing_app and loc = SEARCH_BAR and k = 2,
      unfolded c]
  note i4 = zero_timeout_falls_back_to_default [where d = steady_app and loc = SEARCH_BAR and k = 0,
      unfolded c]
  have ar: "(0::int) \<le> 2" "(2::int) \<le> 0 + 21" by simp_all
  from i1 late ar have a0:
    "wait_for_element SEARCH_BAR (Some 0) late_app
       = (Inr (hd (tree (screen late_app 2) SEARCH_BAR)), late_app\<lparr>clock := 2\<rparr>)"
    "wait_for_element_clickable SEARCH_BAR (Some 0) late_app
       = (Inr (hd (tree (screen late_app 2) SEARCH_BAR)), late_app\<lparr>clock := 2\<rparr>)"
    "get_elements SEARCH_BAR (Some 0) late_app
       = (Inr (tree (screen late_app 2) SEARCH_BAR), late_app\<lparr>clock := 2\<rparr>)"
    by blast+
  then have a:
    "wait_for_element SEARCH_BAR (Some 0) late_app = (Inr search_field, late_app\<lparr>clock := 2\<rparr>)"
    "wait_for_element_clickable SEARCH_BAR (Some 0) late_app
       = (Inr search_field, late_app\<lparr>clock := 2\<rparr>)"
    "get_elements SEARCH_BAR (Some 0) late_app = (Inr [search_field], late_app\<lparr>clock := 2\<rparr>)"
    by (simp_all add: t)
  from i2 never have b0:
    "wait_for_element SEARCH_BAR (Some 0) empty_app
       = (Inl TimeoutException, empty_app\<lparr>clock := 0 + 21\<rparr>)"
    "wait_for_element_clickable SEARCH_BAR (Some 0) empty_app
       = (Inl TimeoutException, empty_app\<lparr>clock := 0 + 21\<rparr>)"
    "get_elements SEARCH_BAR (Some 0) empty_app
       = (Inl TimeoutException, empty_app\<lparr>clock := 0 + 21\<rparr>)"
    by blast+
  then have b:
    "wait_for_element SEARCH_BAR (Some 0) empty_app = (Inl TimeoutException, empty_app\<lparr>clock := 21\<rparr>)"
    "wait_for_element_clickable SEARCH_BAR (Some 0) empty_app
       = (Inl TimeoutException, empty_app\<lparr>clock := 21\<rparr>)"
    "get_elements SEARCH_BAR (Some 0) empty_app = (Inl TimeoutException, empty_app\<lparr>clock := 21\<rparr>)"
    by simp_all
  from i3 vanish(1,2) ar have v0:
    "wait_for_element_invisible SEARCH_BAR (Some 0) vanishing_app
       = (Inr (gone_value SEARCH_BAR vanishing_app 2), vanishing_app\<lparr>clock := 2\<rparr>)"
    by blast
  then have v:
    "wait_for_element_invisible SEARCH_BAR (Some 0) vanishing_app
       = (Inr PyTrue, vanishing_app\<lparr>clock := 2\<rparr>)"
    by (simp add: vanish(3))
  from i4 steady have s0:
    "wait_for_element_invisible SEARCH_BAR (Some 0) steady_app
       = (Inl TimeoutException, steady_app\<lparr>clock := 0 + 21\<rparr>)"
    by blast
  then have s:
    "wait_for_element_invisible SEARCH_BAR (Some 0) steady_app
       = (Inl TimeoutException, steady_app\<lparr>clock := 21\<rparr>)"
    by simp
  from a b v s show ?thesis by simp
qed

end
